theory Spec2Isabelle
  imports Main "HOL-Library.Word"
begin

section \<open>The \<open>put\<close> command of dbxcli (\<open>cmd/put.go\<close>)\<close>

text \<open>
  The command uploads local files to Dropbox. A file larger than \<open>chunkSize\<close> goes
  through an upload session (start, append, finish); the others through one \<open>Upload\<close>
  call. The remote client, the file system, the clock and the flag parser are outside
  the file: they are parameters of the model, and every call to the remote client is
  recorded in a list of calls, in the order in which it is made.
\<close>

subsection \<open>Values\<close>

type_synonym byte = "8 word"

text \<open>Go's \<open>int64\<close> and \<open>uint64\<close>: the conversion \<open>uint64(written)\<close> keeps the bits.\<close>

type_synonym int64 = "64 word"
type_synonym uint64 = "64 word"

text \<open>An \<open>error\<close> value of Go, with its message.\<close>

datatype error = Error string

text \<open>
  \<open>time.Time\<close>, as far as the command uses it: the nanoseconds since the zero time
  (an unbounded integer here: the clock is far away from the ends of the range) and
  the location the time is presented in.
\<close>

datatype location = UTC | Local

record time =
  abs_ns :: int
  loc :: location

text \<open>\<open>time.Second\<close>: a duration counts nanoseconds.\<close>

definition Second :: int where
  "Second = 1000000000"

text \<open>\<open>Time.UTC\<close>: the same instant, with the location set to UTC.\<close>

definition time_UTC :: "time \<Rightarrow> time" where
  "time_UTC t = t\<lparr>loc := UTC\<rparr>"

text \<open>
  \<open>Time.Round\<close> of the Go library: the nearest multiple of \<open>d\<close> since the zero time,
  a halfway value going up; \<open>r\<close> is the remainder of the absolute time, never negative.
  \<^verbatim>\<open>
  r := div(t, d)
  if lessThanHalf(r, d) { return t.Add(-r) }
  return t.Add(d - r)
  \<close>
\<close>

definition time_Round :: "time \<Rightarrow> int \<Rightarrow> time" where
  "time_Round t d =
     (if d \<le> 0 then t
      else let r = abs_ns t mod d
           in if r + r < d then t\<lparr>abs_ns := abs_ns t - r\<rparr>
              else t\<lparr>abs_ns := abs_ns t + (d - r)\<rparr>)"

subsection \<open>Strings and paths\<close>

text \<open>\<open>strings.HasSuffix\<close> and \<open>strings.TrimSuffix\<close> on byte strings.\<close>

definition HasSuffix :: "string \<Rightarrow> string \<Rightarrow> bool" where
  "HasSuffix s suffix =
     (length suffix \<le> length s \<and> drop (length s - length suffix) s = suffix)"

definition TrimSuffix :: "string \<Rightarrow> string \<Rightarrow> string" where
  "TrimSuffix s suffix =
     (if HasSuffix s suffix then take (length s - length suffix) s else s)"

text \<open>
  \<open>path.Base\<close> of the Go library: the last element of the path, after the trailing
  slashes are removed; \<open>.\<close> for the empty path and \<open>/\<close> for a path of slashes only.
\<close>

definition path_Base :: "string \<Rightarrow> string" where
  "path_Base p =
     (if p = [] then ''.''
      else let p1 = rev (dropWhile (\<lambda>c. c = CHR ''/'') (rev p));
               p2 = rev (takeWhile (\<lambda>c. c \<noteq> CHR ''/'') (rev p1))
           in if p2 = [] then ''/'' else p2)"

text \<open>\<open>fullName\<close> (put.go, line 140).\<close>

definition fullName :: "string \<Rightarrow> string \<Rightarrow> string" where
  "fullName fileName destination = TrimSuffix destination ''/'' @ ''/'' @ fileName"

subsection \<open>The remote client\<close>

text \<open>
  The arguments of the SDK calls. \<open>NewCommitInfo\<close> of the SDK sets the path, the
  write mode \<open>add\<close> and the zero time.
\<close>

record CommitInfo =
  Path :: string
  Mode_Tag :: string
  ClientModified :: time

definition NewCommitInfo :: "string \<Rightarrow> CommitInfo" where
  "NewCommitInfo p = \<lparr>Path = p, Mode_Tag = ''add'', ClientModified = \<lparr>abs_ns = 0, loc = UTC\<rparr>\<rparr>"

record UploadSessionCursor =
  SessionId :: string
  Offset :: uint64

definition NewUploadSessionCursor :: "string \<Rightarrow> uint64 \<Rightarrow> UploadSessionCursor" where
  "NewUploadSessionCursor sessionId offset = \<lparr>SessionId = sessionId, Offset = offset\<rparr>"

record UploadSessionFinishArg =
  Cursor :: UploadSessionCursor
  Commit :: CommitInfo

definition NewUploadSessionFinishArg ::
  "UploadSessionCursor \<Rightarrow> CommitInfo \<Rightarrow> UploadSessionFinishArg" where
  "NewUploadSessionFinishArg cursor commit = \<lparr>Cursor = cursor, Commit = commit\<rparr>"

record UploadSessionStartResult =
  res_SessionId :: string

text \<open>
  One call of the remote client, with the bytes its request body carries. A call reads
  its reader to the end: the bytes of a call are all the bytes its reader gives.
\<close>

datatype call =
  StartCall "byte list"
| AppendCall UploadSessionCursor "byte list"
| FinishCall UploadSessionFinishArg "byte list"
| UploadCall CommitInfo "byte list"

text \<open>
  \<open>files.Client\<close>: what the remote side answers to each call. In one upload no two
  calls have the same arguments, so an answer that depends on the arguments can stand
  for any remote side.
\<close>

record dbx_client =
  UploadSessionStart :: "byte list \<Rightarrow> error + UploadSessionStartResult"
  UploadSessionAppend :: "UploadSessionCursor \<Rightarrow> byte list \<Rightarrow> error option"
  UploadSessionFinish :: "UploadSessionFinishArg \<Rightarrow> byte list \<Rightarrow> error option"
  Upload :: "CommitInfo \<Rightarrow> byte list \<Rightarrow> error option"

subsection \<open>The chunked upload\<close>

text \<open>\<open>const chunkSize int64 = 1 << 24\<close>\<close>

definition chunkSize :: int64 where
  "chunkSize = push_bit 24 1"

text \<open>
  A reader is the list of the bytes it has not given yet. A call that is handed
  \<open>&io.LimitedReader{R: r, N: n}\<close> gets the next \<open>n\<close> bytes of \<open>r\<close> (fewer at the end
  of the stream, none for \<open>n \<le> 0\<close>), and \<open>r\<close> is left after them.
\<close>

definition limited :: "int64 \<Rightarrow> byte list \<Rightarrow> byte list" where
  "limited n r = take (nat (sint n)) r"

definition after_limited :: "int64 \<Rightarrow> byte list \<Rightarrow> byte list" where
  "after_limited n r = drop (nat (sint n)) r"

text \<open>
  The loop of \<open>uploadChunked\<close> (lines 44 to 52), from the reader \<open>r\<close> and the counter
  \<open>written\<close>. It returns the error of the append that failed, or the reader and the
  counter at the exit of the loop, and the calls it made. The subtraction and the
  comparison are those of \<open>int64\<close>.
\<close>

function append_loop ::
  "dbx_client \<Rightarrow> string \<Rightarrow> int64 \<Rightarrow> byte list \<Rightarrow> int64
     \<Rightarrow> (error + byte list \<times> int64) \<times> call list" where
  "append_loop dbx sessionId sizeTotal r written =
     (if sint chunkSize < sint (sizeTotal - written) then
        (let args = NewUploadSessionCursor sessionId written;
             body = limited chunkSize r
         in case UploadSessionAppend dbx args body of
              Some err \<Rightarrow> (Inl err, [AppendCall args body])
            | None \<Rightarrow>
                (case append_loop dbx sessionId sizeTotal (after_limited chunkSize r)
                        (written + chunkSize) of
                   (res, calls) \<Rightarrow> (res, AppendCall args body # calls)))
      else (Inr (r, written), []))"
  by pat_completeness auto

text \<open>
  \<open>uploadChunked\<close> (lines 35 to 62). It returns the error, or the reader after the
  finish call (which has read it to the end), and the calls it made.
\<close>

definition uploadChunked ::
  "dbx_client \<Rightarrow> byte list \<Rightarrow> CommitInfo \<Rightarrow> int64 \<Rightarrow> (error + byte list) \<times> call list" where
  "uploadChunked dbx r commitInfo sizeTotal =
     (let body = limited chunkSize r
      in case UploadSessionStart dbx body of
           Inl err \<Rightarrow> (Inl err, [StartCall body])
         | Inr res \<Rightarrow>
             (let written = chunkSize
              in case append_loop dbx (res_SessionId res) sizeTotal
                        (after_limited chunkSize r) written of
                   (Inl err, calls) \<Rightarrow> (Inl err, StartCall body # calls)
                 | (Inr (r', written'), calls) \<Rightarrow>
                     (let cursor = NewUploadSessionCursor (res_SessionId res) written';
                          args = NewUploadSessionFinishArg cursor commitInfo
                      in case UploadSessionFinish dbx args r' of
                           Some err \<Rightarrow>
                             (Inl err, StartCall body # calls @ [FinishCall args r'])
                         | None \<Rightarrow>
                             (Inr [], StartCall body # calls @ [FinishCall args r']))))"

text \<open>\<open>uploadFile\<close> (lines 133 to 138): one \<open>Upload\<close> call with the reader as it is.\<close>

definition uploadFile :: "dbx_client \<Rightarrow> CommitInfo \<Rightarrow> byte list \<Rightarrow> error option \<times> call list" where
  "uploadFile dbx commitInfo progressbar =
     (case Upload dbx commitInfo progressbar of
        Some err \<Rightarrow> (Some err, [UploadCall commitInfo progressbar])
      | None \<Rightarrow> (None, [UploadCall commitInfo progressbar]))"

subsection \<open>The command\<close>

text \<open>
  What \<open>os.Open\<close> and \<open>Stat\<close> give: the bytes of the file, and its size and
  modification time as the file system reports them.
\<close>

record FileInfo =
  Size :: int64
  ModTime :: time

record os_File =
  contents :: "byte list"
  Stat :: "error + FileInfo"

text \<open>
  What one task of \<open>put\<close> sees of the world: the helper \<open>validatePath\<close> (in another
  file of the package), the file system, the clock at the moment the task asks for it,
  and the client \<open>files.New(config)\<close>.
\<close>

record env =
  validatePath :: "string \<Rightarrow> error + string"
  os_Open :: "string \<Rightarrow> error + os_File"
  time_Now :: time
  files_New :: dbx_client

text \<open>
  Modelled from the spec: \<open>validatePath\<close> is defined outside put.go. The spec says
  that the combined path must be absolute-like and non-empty, and that the validation
  fails with a path-validation error if it is not. The theorems below hold for every
  \<open>validatePath\<close>; this one is used where a concrete run is evaluated.
\<close>

definition validatePath_spec :: "string \<Rightarrow> error + string" where
  "validatePath_spec p =
     (if p \<noteq> [] \<and> hd p = CHR ''/'' then Inr p else Inl (Error ''PathValidationError''))"

text \<open>
  The body of the goroutine that \<open>put\<close> starts for one argument (lines 77 to 127):
  the error it returns and the calls it makes. The progress bar hands the bytes of the
  file through. After a chunked upload without error the control falls through to
  \<open>uploadFile\<close> on the same reader (line 122).
\<close>

definition put_task :: "env \<Rightarrow> string \<Rightarrow> string \<Rightarrow> error option \<times> call list" where
  "put_task e destination arg =
     (case (if destination \<noteq> [] then validatePath e (fullName arg destination)
            else Inr (''/'' @ path_Base arg)) of
        Inl err \<Rightarrow> (Some err, [])
      | Inr dst \<Rightarrow>
          (case os_Open e arg of
             Inl err \<Rightarrow> (Some err, [])
           | Inr f \<Rightarrow>
               (case Stat f of
                  Inl err \<Rightarrow> (Some err, [])
                | Inr contentsInfo \<Rightarrow>
                    (let progressbar = contents f;
                         commitInfo = (NewCommitInfo dst)
                           \<lparr>Mode_Tag := ''overwrite'',
                            ClientModified := time_Round (time_UTC (time_Now e)) Second\<rparr>;
                         dbx = files_New e
                     in case (if sint chunkSize < sint (Size contentsInfo)
                              then uploadChunked dbx progressbar commitInfo (Size contentsInfo)
                              else (Inr progressbar, [])) of
                          (Inl err, calls) \<Rightarrow> (Some err, calls)
                        | (Inr progressbar', calls) \<Rightarrow>
                            (case uploadFile dbx commitInfo progressbar' of
                               (Some err, calls') \<Rightarrow>
                                 (Some (Error (''Did not upload '' @ arg)), calls @ calls')
                             | (None, calls') \<Rightarrow> (None, calls @ calls'))))))"

text \<open>
  \<open>put\<close> (lines 64 to 131), as a function. \<open>flag\<close> is what
  \<open>cmd.Flags().GetString("destination")\<close> returns, and \<open>world i\<close> is what the task of
  the \<open>i\<close>-th argument sees. The result is the error \<open>put\<close> returns and, for each
  task it started, what the task returned and the calls it made. That the goroutines
  and the wait group of lines 74 to 129 give this result is proved below, on the
  steps of \<open>put_step\<close>.
\<close>

definition put ::
  "(error + string) \<Rightarrow> string list \<Rightarrow> (nat \<Rightarrow> env)
     \<Rightarrow> error option \<times> (error option \<times> call list) list" where
  "put flag args world =
     (if length args = 0 then (Some (Error ''missing operands to `put`''), [])
      else case flag of
             Inl err \<Rightarrow> (Some err, [])
           | Inr destination \<Rightarrow>
               (None, map (\<lambda>(i, arg). put_task (world i) destination arg) (enumerate 0 args)))"

subsection \<open>The goroutines of \<open>put\<close>\<close>

text \<open>
  Lines 74 to 130, step by step. The main goroutine ranges over the arguments
  (\<open>Loop\<close>, with the arguments still to come); for each one it calls
  \<open>waitGroup.Add(1)\<close> and is then about to start the goroutine (\<open>Go\<close>); after the last
  one it stands at \<open>waitGroup.Wait()\<close> (\<open>Wait\<close>), which lets it pass only when the
  counter is zero, and then it returns nil (\<open>Returned\<close>). A goroutine has been started
  with its argument (\<open>Started\<close>), or its body has returned (\<open>BodyDone\<close>, with what it
  returned and the calls it made), or its deferred \<open>waitGroup.Done()\<close> has run as well
  (\<open>Exited\<close>).
\<close>

datatype main_pc = Loop "string list" | Go string "string list" | Wait | Returned "error option"

datatype goroutine =
  Started string
| BodyDone "error option \<times> call list"
| Exited "error option \<times> call list"

record put_state =
  pc :: main_pc
  waitGroup :: int
  goroutines :: "goroutine list"

text \<open>The state at line 74: the operands and the flag have been checked.\<close>

definition put_spawn :: "string list \<Rightarrow> put_state" where
  "put_spawn args = \<lparr>pc = Loop args, waitGroup = 0, goroutines = []\<rparr>"

text \<open>
  One step of one goroutine; the goroutines interleave in any order. The body of a
  task is one step: the tasks share no variable that \<open>put\<close> reads afterwards (the
  assignment to \<open>err\<close> on line 82 is overwritten by \<open>return nil\<close>), and what a task
  returns goes nowhere.
\<close>

inductive put_step :: "(nat \<Rightarrow> env) \<Rightarrow> string \<Rightarrow> put_state \<Rightarrow> put_state \<Rightarrow> bool"
  for world :: "nat \<Rightarrow> env" and destination :: string where
  main_add: "pc s = Loop (arg # rest) \<Longrightarrow>
     put_step world destination s (s\<lparr>pc := Go arg rest, waitGroup := waitGroup s + 1\<rparr>)"
| main_go: "pc s = Go arg rest \<Longrightarrow>
     put_step world destination s
       (s\<lparr>pc := Loop rest, goroutines := goroutines s @ [Started arg]\<rparr>)"
| main_range_end: "pc s = Loop [] \<Longrightarrow> put_step world destination s (s\<lparr>pc := Wait\<rparr>)"
| main_wait: "pc s = Wait \<Longrightarrow> waitGroup s = 0 \<Longrightarrow>
     put_step world destination s (s\<lparr>pc := Returned None\<rparr>)"
| task_body: "i < length (goroutines s) \<Longrightarrow> goroutines s ! i = Started arg \<Longrightarrow>
     put_step world destination s
       (s\<lparr>goroutines := (goroutines s)[i := BodyDone (put_task (world i) destination arg)]\<rparr>)"
| task_done: "i < length (goroutines s) \<Longrightarrow> goroutines s ! i = BodyDone res \<Longrightarrow>
     put_step world destination s
       (s\<lparr>goroutines := (goroutines s)[i := Exited res], waitGroup := waitGroup s - 1\<rparr>)"

code_pred put_step .

text \<open>
  The invariant of these steps. The counter of the wait group is the number of
  goroutines that have not exited, plus one between \<open>Add\<close> and \<open>go\<close>; the \<open>i\<close>-th
  goroutine runs the task of the \<open>i\<close>-th argument; and \<open>put\<close> has returned only nil,
  with every argument started and every goroutine exited.
\<close>

fun running :: "goroutine \<Rightarrow> nat" where
  "running (Exited res) = 0"
| "running g = 1"

fun goroutine_of :: "(nat \<Rightarrow> env) \<Rightarrow> string \<Rightarrow> string list \<Rightarrow> nat \<Rightarrow> goroutine \<Rightarrow> bool" where
  "goroutine_of world destination args i (Started arg) = (arg = args ! i)"
| "goroutine_of world destination args i (BodyDone res) =
     (res = put_task (world i) destination (args ! i))"
| "goroutine_of world destination args i (Exited res) =
     (res = put_task (world i) destination (args ! i))"

definition put_inv :: "(nat \<Rightarrow> env) \<Rightarrow> string \<Rightarrow> string list \<Rightarrow> put_state \<Rightarrow> bool" where
  "put_inv world destination args s =
     (let k = length (goroutines s);
          n = sum_list (map running (goroutines s))
      in k \<le> length args \<and>
         (\<forall>i < k. goroutine_of world destination args i (goroutines s ! i)) \<and>
         (case pc s of
            Loop rest \<Rightarrow> rest = drop k args \<and> waitGroup s = int n
          | Go arg rest \<Rightarrow>
              k < length args \<and> arg = args ! k \<and> rest = drop (Suc k) args \<and>
              waitGroup s = int n + 1
          | Wait \<Rightarrow> k = length args \<and> waitGroup s = int n
          | Returned r \<Rightarrow> r = None \<and> k = length args \<and> n = 0 \<and> waitGroup s = 0))"

text \<open>A number that every step lowers: no run goes on for ever.\<close>

fun pc_weight :: "main_pc \<Rightarrow> nat" where
  "pc_weight (Loop rest) = 4 * length rest + 2"
| "pc_weight (Go arg rest) = 4 * length rest + 5"
| "pc_weight Wait = 1"
| "pc_weight (Returned r) = 0"

fun goroutine_weight :: "goroutine \<Rightarrow> nat" where
  "goroutine_weight (Started arg) = 2"
| "goroutine_weight (BodyDone res) = 1"
| "goroutine_weight (Exited res) = 0"

definition put_weight :: "put_state \<Rightarrow> nat" where
  "put_weight s = pc_weight (pc s) + sum_list (map goroutine_weight (goroutines s))"

subsection \<open>Reading the list of calls\<close>

text \<open>The bytes a call carries, and the commit metadata of the calls that commit.\<close>

fun call_body :: "call \<Rightarrow> byte list" where
  "call_body (StartCall b) = b"
| "call_body (AppendCall a b) = b"
| "call_body (FinishCall a b) = b"
| "call_body (UploadCall c b) = b"

fun call_commit :: "call \<Rightarrow> CommitInfo option" where
  "call_commit (FinishCall a b) = Some (Commit a)"
| "call_commit (UploadCall c b) = Some c"
| "call_commit _ = None"

fun is_append :: "call \<Rightarrow> bool" where
  "is_append (AppendCall a b) = True"
| "is_append _ = False"

fun is_finish :: "call \<Rightarrow> bool" where
  "is_finish (FinishCall a b) = True"
| "is_finish _ = False"

text \<open>
  The shape of a whole session: one start call, then append calls, then one finish
  call, and nothing else.
\<close>

fun appends_then_finish :: "call list \<Rightarrow> bool" where
  "appends_then_finish [] = False"
| "appends_then_finish (AppendCall a b # calls) = appends_then_finish calls"
| "appends_then_finish (FinishCall a b # calls) = (calls = [])"
| "appends_then_finish (c # calls) = False"

fun start_appends_finish :: "call list \<Rightarrow> bool" where
  "start_appends_finish (StartCall b # calls) = appends_then_finish calls"
| "start_appends_finish calls = False"

text \<open>
  The calls after the start call carry the session id \<open>sid\<close> and the offsets
  \<open>k * chunkSize\<close>, \<open>(k + 1) * chunkSize\<close>, ... (as numbers, without wrap-around), each
  append call one chunk after the call before it, and a finish call ends the list.
\<close>

fun session_tagged :: "string \<Rightarrow> nat \<Rightarrow> call list \<Rightarrow> bool" where
  "session_tagged sid k [] = True"
| "session_tagged sid k (AppendCall a b # calls) =
     (SessionId a = sid \<and> unat (Offset a) = k * unat chunkSize \<and>
      session_tagged sid (Suc k) calls)"
| "session_tagged sid k (FinishCall a b # calls) =
     (SessionId (Cursor a) = sid \<and> unat (Offset (Cursor a)) = k * unat chunkSize \<and>
      calls = [])"
| "session_tagged sid k (c # calls) = False"

subsection \<open>Concrete runs\<close>

text \<open>A remote side that accepts every call, and one whose append calls fail.\<close>

definition dbx_ok :: dbx_client where
  "dbx_ok =
     \<lparr>UploadSessionStart = (\<lambda>b. Inr \<lparr>res_SessionId = ''sid''\<rparr>),
      UploadSessionAppend = (\<lambda>a b. None),
      UploadSessionFinish = (\<lambda>a b. None),
      Upload = (\<lambda>c b. None)\<rparr>"

definition dbx_append_fails :: dbx_client where
  "dbx_append_fails = dbx_ok\<lparr>UploadSessionAppend := (\<lambda>a b. Some (Error ''append''))\<rparr>"

text \<open>
  A world with one readable file of the given bytes at every path, the given clock and
  the given remote side.
\<close>

definition env_of :: "byte list \<Rightarrow> time \<Rightarrow> dbx_client \<Rightarrow> env" where
  "env_of bytes now dbx =
     \<lparr>validatePath = validatePath_spec,
      os_Open = (\<lambda>p. Inr \<lparr>contents = bytes,
                          Stat = Inr \<lparr>Size = of_nat (length bytes),
                                     ModTime = \<lparr>abs_ns = 5, loc = Local\<rparr>\<rparr>\<rparr>),
      time_Now = now,
      files_New = dbx\<rparr>"

text \<open>A world in which no file can be opened.\<close>

definition env_no_file :: env where
  "env_no_file = (env_of [] \<lparr>abs_ns = 0, loc = Local\<rparr> dbx_ok)
     \<lparr>os_Open := (\<lambda>p. Inl (Error ''open''))\<rparr>"

text \<open>The same world, with other modification times on the files.\<close>

definition with_ModTime :: "(string \<Rightarrow> time) \<Rightarrow> env \<Rightarrow> env" where
  "with_ModTime m e =
     e\<lparr>os_Open := (\<lambda>p. map_sum id
          (\<lambda>f. f\<lparr>Stat := map_sum id (\<lambda>i. i\<lparr>ModTime := m p\<rparr>) (Stat f)\<rparr>) (os_Open e p))\<rparr>"

section \<open>Properties\<close>

subsection \<open>Arithmetic of the loop, and its termination\<close>

lemma sint_chunkSize: "sint chunkSize = 16777216"
  by (simp add: chunkSize_def)

lemma unat_chunkSize: "unat chunkSize = 16777216"
  by (simp add: chunkSize_def)

text \<open>
  When the loop condition holds, the next value of \<open>sizeTotal - written\<close> is the
  present one minus \<open>chunkSize\<close>, with no wrap-around: the present one is at most
  \<open>2^63 - 1\<close> and more than \<open>chunkSize\<close>.
\<close>

lemma remaining_decreases:
  fixes sizeTotal written :: int64
  assumes "sint chunkSize < sint (sizeTotal - written)"
  shows "sint (sizeTotal - (written + chunkSize)) = sint (sizeTotal - written) - sint chunkSize"
proof -
  let ?d = "sizeTotal - written"
  have eq: "sizeTotal - (written + chunkSize) = ?d - chunkSize"
    by simp
  have up: "sint ?d < 2 ^ 63"
    using sint_lt [of ?d] by simp
  have "sint (?d - chunkSize) = signed_take_bit 63 (sint ?d - sint chunkSize)"
    by (simp add: sint_word_ariths)
  also have "\<dots> = sint ?d - sint chunkSize"
    using assms up by (intro signed_take_bit_int_eq_self) (simp_all add: sint_chunkSize)
  finally show ?thesis
    by (simp only: eq)
qed

termination append_loop
  by (relation "measure (\<lambda>(dbx, sessionId, sizeTotal, r, written).
        nat (sint (sizeTotal - written)))")
     (auto simp: remaining_decreases sint_chunkSize)

declare append_loop.simps [simp del]

subsection \<open>One pass through the loop\<close>

lemma append_loop_stop:
  "\<not> sint chunkSize < sint (sizeTotal - written) \<Longrightarrow>
     append_loop dbx sid sizeTotal r written = (Inr (r, written), [])"
  by (subst append_loop.simps) simp

lemma append_loop_fail:
  "sint chunkSize < sint (sizeTotal - written) \<Longrightarrow>
   UploadSessionAppend dbx (NewUploadSessionCursor sid written) (limited chunkSize r) = Some err \<Longrightarrow>
     append_loop dbx sid sizeTotal r written =
       (Inl err, [AppendCall (NewUploadSessionCursor sid written) (limited chunkSize r)])"
  by (subst append_loop.simps) simp

lemma append_loop_step:
  "sint chunkSize < sint (sizeTotal - written) \<Longrightarrow>
   UploadSessionAppend dbx (NewUploadSessionCursor sid written) (limited chunkSize r) = None \<Longrightarrow>
     append_loop dbx sid sizeTotal r written =
       (fst (append_loop dbx sid sizeTotal (after_limited chunkSize r) (written + chunkSize)),
        AppendCall (NewUploadSessionCursor sid written) (limited chunkSize r) #
        snd (append_loop dbx sid sizeTotal (after_limited chunkSize r) (written + chunkSize)))"
  by (subst append_loop.simps) (simp add: case_prod_unfold)

text \<open>The three cases of one pass through the loop.\<close>

lemma append_loop_cases [consumes 0, case_names stop fail step]:
  assumes "\<not> sint chunkSize < sint (sizeTotal - written) \<Longrightarrow> P"
    and "\<And>err. sint chunkSize < sint (sizeTotal - written) \<Longrightarrow>
           UploadSessionAppend dbx (NewUploadSessionCursor sid written) (limited chunkSize r) = Some err \<Longrightarrow> P"
    and "sint chunkSize < sint (sizeTotal - written) \<Longrightarrow>
           UploadSessionAppend dbx (NewUploadSessionCursor sid written) (limited chunkSize r) = None \<Longrightarrow> P"
  shows P
  using assms by (cases "UploadSessionAppend dbx (NewUploadSessionCursor sid written) (limited chunkSize r)") auto

lemma append_loop_all_appends:
  "list_all is_append (snd (append_loop dbx sid sizeTotal r written))"
proof (induction dbx sid sizeTotal r written rule: append_loop.induct)
  case (1 dbx sid sizeTotal r written)
  show ?case
  proof (cases rule: append_loop_cases [where sizeTotal = sizeTotal and written = written and dbx = dbx and sid = sid and r = r])
    case stop
    then show ?thesis by (simp add: append_loop_stop)
  next
    case (fail err)
    then show ?thesis by (simp add: append_loop_fail)
  next
    case step
    with 1 show ?thesis by (simp add: append_loop_step)
  qed
qed

lemma append_loop_length:
  "length (snd (append_loop dbx sid sizeTotal r written))
     \<le> nat (sint (sizeTotal - written)) div unat chunkSize"
proof (induction dbx sid sizeTotal r written rule: append_loop.induct)
  case (1 dbx sid sizeTotal r written)
  show ?case
  proof (cases rule: append_loop_cases [where sizeTotal = sizeTotal and written = written and dbx = dbx and sid = sid and r = r])
    case stop
    then show ?thesis by (simp add: append_loop_stop)
  next
    case (fail err)
    then have "unat chunkSize \<le> nat (sint (sizeTotal - written))"
      by (simp add: sint_chunkSize unat_chunkSize)
    then have "1 \<le> nat (sint (sizeTotal - written)) div unat chunkSize"
      by (simp add: unat_chunkSize div_greater_zero_iff Suc_le_eq)
    with fail show ?thesis by (simp add: append_loop_fail)
  next
    case step
    let ?d = "sint (sizeTotal - written)"
    have ih: "length (snd (append_loop dbx sid sizeTotal (after_limited chunkSize r) (written + chunkSize)))
        \<le> nat (?d - sint chunkSize) div unat chunkSize"
      using 1 [OF step(1) refl refl step(2)] remaining_decreases [OF step(1)] by simp
    have "nat (?d - sint chunkSize) div unat chunkSize + 1 = nat ?d div unat chunkSize"
      using step(1) by (simp add: sint_chunkSize unat_chunkSize nat_diff_distrib)
    with ih step show ?thesis by (simp add: append_loop_step)
  qed
qed


text \<open>The bytes of the calls of the loop, then the reader it leaves, are the reader it got.\<close>

lemma limited_after_limited: "limited n r @ after_limited n r = r"
  by (simp add: limited_def after_limited_def)

lemma append_loop_bytes:
  "append_loop dbx sid sizeTotal r written = (Inr (r', written'), calls) \<Longrightarrow>
     concat (map call_body calls) @ r' = r"
proof (induction dbx sid sizeTotal r written arbitrary: calls rule: append_loop.induct)
  case (1 dbx sid sizeTotal r written)
  show ?case
  proof (cases rule: append_loop_cases [where sizeTotal = sizeTotal and written = written and dbx = dbx and sid = sid and r = r])
    case stop
    with "1.prems" show ?thesis by (simp add: append_loop_stop)
  next
    case (fail err)
    with "1.prems" show ?thesis by (simp add: append_loop_fail)
  next
    case step
    let ?rest = "append_loop dbx sid sizeTotal (after_limited chunkSize r) (written + chunkSize)"
    from "1.prems" step have "?rest = (Inr (r', written'), snd ?rest)"
      and calls: "calls = AppendCall (NewUploadSessionCursor sid written) (limited chunkSize r) # snd ?rest"
      by (simp_all add: append_loop_step prod_eq_iff)
    then have "concat (map call_body (snd ?rest)) @ r' = after_limited chunkSize r"
      using "1.IH" [OF step(1) refl refl step(2)] by simp
    then show ?thesis
      using limited_after_limited [of chunkSize r] by (simp add: calls)
  qed
qed

text \<open>
  The offsets: if \<open>written\<close> is \<open>k\<close> chunks and what remains is below \<open>2^63\<close>
  from there, no counter of the loop wraps around.
\<close>

lemma unat_add_chunkSize:
  fixes written :: int64
  assumes "unat written + unat chunkSize < 2 ^ 64"
  shows "unat (written + chunkSize) = unat written + unat chunkSize"
  using assms by (simp add: unat_add_lem [THEN iffD1])

lemma append_loop_tagged:
  "unat written = k * unat chunkSize \<Longrightarrow>
   k * unat chunkSize + nat (sint (sizeTotal - written)) < 2 ^ 63 + unat chunkSize \<Longrightarrow>
     session_tagged sid k (snd (append_loop dbx sid sizeTotal r written)) \<and>
     (\<forall>r' written'. fst (append_loop dbx sid sizeTotal r written) = Inr (r', written') \<longrightarrow>
        unat written' = (k + length (snd (append_loop dbx sid sizeTotal r written))) * unat chunkSize)"
proof (induction dbx sid sizeTotal r written arbitrary: k rule: append_loop.induct)
  case (1 dbx sid sizeTotal r written)
  show ?case
  proof (cases rule: append_loop_cases [where sizeTotal = sizeTotal and written = written and dbx = dbx and sid = sid and r = r])
    case stop
    with "1.prems" show ?thesis by (simp add: append_loop_stop)
  next
    case (fail err)
    with "1.prems" show ?thesis
      by (simp add: append_loop_fail NewUploadSessionCursor_def)
  next
    case step
    let ?d = "sint (sizeTotal - written)"
    have d: "sint (sizeTotal - (written + chunkSize)) = ?d - sint chunkSize"
      by (rule remaining_decreases [OF step(1)])
    have small: "unat written + unat chunkSize < 2 ^ 64"
      using "1.prems" step(1) by (simp add: sint_chunkSize unat_chunkSize)
    have w: "unat (written + chunkSize) = Suc k * unat chunkSize"
      using unat_add_chunkSize [OF small] "1.prems"(1) by simp
    have b: "Suc k * unat chunkSize + nat (sint (sizeTotal - (written + chunkSize)))
        < 2 ^ 63 + unat chunkSize"
      using "1.prems" step(1) by (simp add: d sint_chunkSize unat_chunkSize)
    from "1.IH" [OF step(1) refl refl step(2) w b] step "1.prems"(1) show ?thesis
      by (simp add: append_loop_step NewUploadSessionCursor_def)
  qed
qed

text \<open>An append call that fails is the last call of the loop, and its error is returned.\<close>

lemma append_loop_failed_call:
  "AppendCall a b \<in> set (snd (append_loop dbx sid sizeTotal r written)) \<Longrightarrow>
   UploadSessionAppend dbx a b = Some err \<Longrightarrow>
     fst (append_loop dbx sid sizeTotal r written) = Inl err \<and>
     last (snd (append_loop dbx sid sizeTotal r written)) = AppendCall a b"
proof (induction dbx sid sizeTotal r written rule: append_loop.induct)
  case (1 dbx sid sizeTotal r written)
  show ?case
  proof (cases rule: append_loop_cases [where sizeTotal = sizeTotal and written = written and dbx = dbx and sid = sid and r = r])
    case stop
    with "1.prems" show ?thesis by (simp add: append_loop_stop)
  next
    case (fail e)
    with "1.prems" show ?thesis by (auto simp: append_loop_fail)
  next
    case step
    let ?rest = "append_loop dbx sid sizeTotal (after_limited chunkSize r) (written + chunkSize)"
    from "1.prems" step have "AppendCall a b \<in> set (snd ?rest)"
      by (auto simp: append_loop_step)
    with "1.IH" [OF step(1) refl refl step(2)] "1.prems"(2)
    have "fst ?rest = Inl err \<and> last (snd ?rest) = AppendCall a b \<and> snd ?rest \<noteq> []"
      by auto
    with step show ?thesis by (simp add: append_loop_step)
  qed
qed

text \<open>When no call fails the loop makes this many passes.\<close>

lemma append_loop_count:
  "append_loop dbx sid sizeTotal r written = (Inr (r', written'), calls) \<Longrightarrow>
     int (length calls) =
       (if sint chunkSize < sint (sizeTotal - written)
        then (sint (sizeTotal - written) - 1) div sint chunkSize else 0)"
proof (induction dbx sid sizeTotal r written arbitrary: calls rule: append_loop.induct)
  case (1 dbx sid sizeTotal r written)
  show ?case
  proof (cases rule: append_loop_cases [where sizeTotal = sizeTotal and written = written and dbx = dbx and sid = sid and r = r])
    case stop
    with "1.prems" show ?thesis by (simp add: append_loop_stop)
  next
    case (fail err)
    with "1.prems" show ?thesis by (simp add: append_loop_fail)
  next
    case step
    let ?rest = "append_loop dbx sid sizeTotal (after_limited chunkSize r) (written + chunkSize)"
    let ?d = "sint (sizeTotal - written)"
    have d: "sint (sizeTotal - (written + chunkSize)) = ?d - sint chunkSize"
      by (rule remaining_decreases [OF step(1)])
    from "1.prems" step have rest: "?rest = (Inr (r', written'), snd ?rest)"
      and calls: "calls = AppendCall (NewUploadSessionCursor sid written) (limited chunkSize r) # snd ?rest"
      by (simp_all add: append_loop_step prod_eq_iff)
    have "int (length (snd ?rest)) =
        (if sint chunkSize < ?d - sint chunkSize then (?d - sint chunkSize - 1) div sint chunkSize else 0)"
      using "1.IH" [OF step(1) refl refl step(2) rest] by (simp only: d)
    moreover have "(if sint chunkSize < ?d - sint chunkSize then (?d - sint chunkSize - 1) div sint chunkSize else 0) + 1
        = (?d - 1) div sint chunkSize"
      using step(1) by (auto simp: sint_chunkSize)
    ultimately show ?thesis
      using step(1) by (simp add: calls)
  qed
qed

lemma sint_minus_chunkSize:
  fixes sizeTotal :: int64
  assumes "sint chunkSize < sint sizeTotal"
  shows "sint (sizeTotal - chunkSize) = sint sizeTotal - sint chunkSize"
proof -
  have "sint sizeTotal < 2 ^ 63"
    using sint_lt [of sizeTotal] by simp
  then have "signed_take_bit 63 (sint sizeTotal - sint chunkSize) = sint sizeTotal - sint chunkSize"
    using assms by (intro signed_take_bit_int_eq_self) (simp_all add: sint_chunkSize)
  then show ?thesis
    by (simp add: sint_word_ariths)
qed

text \<open>
  When the reader holds as many bytes as the counters say remain, every append call
  carries a whole chunk, and at most a chunk is left at the exit of the loop.
\<close>

lemma append_loop_sizes:
  "int (length r) = sint (sizeTotal - written) \<Longrightarrow>
   append_loop dbx sid sizeTotal r written = (Inr (r', written'), calls) \<Longrightarrow>
     (\<forall>c \<in> set calls. length (call_body c) = unat chunkSize) \<and>
     int (length r') \<le> sint chunkSize \<and>
     (r \<noteq> [] \<longrightarrow> r' \<noteq> [])"
proof (induction dbx sid sizeTotal r written arbitrary: calls rule: append_loop.induct)
  case (1 dbx sid sizeTotal r written)
  show ?case
  proof (cases rule: append_loop_cases [where sizeTotal = sizeTotal and written = written and dbx = dbx and sid = sid and r = r])
    case stop
    with "1.prems" show ?thesis by (auto simp: append_loop_stop)
  next
    case (fail err)
    with "1.prems" show ?thesis by (simp add: append_loop_fail)
  next
    case step
    let ?rest = "append_loop dbx sid sizeTotal (after_limited chunkSize r) (written + chunkSize)"
    have d: "sint (sizeTotal - (written + chunkSize)) = sint (sizeTotal - written) - sint chunkSize"
      by (rule remaining_decreases [OF step(1)])
    have long: "unat chunkSize < length r"
      using "1.prems"(1) step(1) by (simp add: sint_chunkSize unat_chunkSize)
    then have len: "int (length (after_limited chunkSize r)) = sint (sizeTotal - (written + chunkSize))"
      and chunk: "length (limited chunkSize r) = unat chunkSize"
      and ne: "after_limited chunkSize r \<noteq> []"
      using "1.prems"(1)
      by (simp_all add: d after_limited_def limited_def sint_chunkSize unat_chunkSize)
    from "1.prems"(2) step have rest: "?rest = (Inr (r', written'), snd ?rest)"
      and calls: "calls = AppendCall (NewUploadSessionCursor sid written) (limited chunkSize r) # snd ?rest"
      by (simp_all add: append_loop_step prod_eq_iff)
    from "1.IH" [OF step(1) refl refl step(2) len rest] chunk ne show ?thesis
      by (simp add: calls)
  qed
qed

subsection \<open>The chunked upload\<close>

lemma appends_then_finish_snoc:
  "list_all is_append calls \<Longrightarrow> appends_then_finish (calls @ [FinishCall a b])"
  by (induction calls rule: appends_then_finish.induct) simp_all

lemma session_tagged_snoc:
  "list_all is_append calls \<Longrightarrow> session_tagged sid k calls \<Longrightarrow>
   SessionId (Cursor a) = sid \<Longrightarrow>
   unat (Offset (Cursor a)) = (k + length calls) * unat chunkSize \<Longrightarrow>
     session_tagged sid k (calls @ [FinishCall a b])"
  by (induction sid k calls rule: session_tagged.induct) simp_all

lemma appends_no_finish: "list_all is_append calls \<Longrightarrow> \<not> list_ex is_finish calls"
  by (induction calls rule: appends_then_finish.induct) simp_all

lemma appends_no_commit: "list_all is_append calls \<Longrightarrow> c \<in> set calls \<Longrightarrow> call_commit c = None"
  by (induction calls rule: appends_then_finish.induct) auto

lemma filter_is_append_snoc:
  "list_all is_append calls \<Longrightarrow> filter is_append (StartCall b # calls @ [FinishCall a b']) = calls"
  by (simp add: list_all_iff filter_id_conv)

text \<open>What \<open>uploadChunked\<close> returns, by the outcome of the start call and of the loop.\<close>

lemma uploadChunked_start_fails:
  "UploadSessionStart dbx (limited chunkSize r) = Inl err \<Longrightarrow>
     uploadChunked dbx r commitInfo sizeTotal = (Inl err, [StartCall (limited chunkSize r)])"
  by (simp add: uploadChunked_def)

lemma uploadChunked_loop_fails:
  "UploadSessionStart dbx (limited chunkSize r) = Inr res \<Longrightarrow>
   append_loop dbx (res_SessionId res) sizeTotal (after_limited chunkSize r) chunkSize = (Inl err, calls) \<Longrightarrow>
     uploadChunked dbx r commitInfo sizeTotal = (Inl err, StartCall (limited chunkSize r) # calls)"
  by (simp add: uploadChunked_def)

lemma uploadChunked_finish:
  "UploadSessionStart dbx (limited chunkSize r) = Inr res \<Longrightarrow>
   append_loop dbx (res_SessionId res) sizeTotal (after_limited chunkSize r) chunkSize
     = (Inr (r', written'), calls) \<Longrightarrow>
   args = NewUploadSessionFinishArg (NewUploadSessionCursor (res_SessionId res) written') commitInfo \<Longrightarrow>
     uploadChunked dbx r commitInfo sizeTotal =
       (case UploadSessionFinish dbx args r' of Some err \<Rightarrow> Inl err | None \<Rightarrow> Inr [],
        StartCall (limited chunkSize r) # calls @ [FinishCall args r'])"
  by (simp add: uploadChunked_def Let_def split: option.splits)

lemma uploadChunked_cases [consumes 0, case_names start_fails loop_fails finish]:
  assumes "\<And>err. UploadSessionStart dbx (limited chunkSize r) = Inl err \<Longrightarrow> P"
    and "\<And>res err calls. UploadSessionStart dbx (limited chunkSize r) = Inr res \<Longrightarrow>
           append_loop dbx (res_SessionId res) sizeTotal (after_limited chunkSize r) chunkSize
             = (Inl err, calls) \<Longrightarrow> P"
    and "\<And>res r' written' calls. UploadSessionStart dbx (limited chunkSize r) = Inr res \<Longrightarrow>
           append_loop dbx (res_SessionId res) sizeTotal (after_limited chunkSize r) chunkSize
             = (Inr (r', written'), calls) \<Longrightarrow> P"
  shows P
proof (cases "UploadSessionStart dbx (limited chunkSize r)")
  case (Inl err)
  then show ?thesis by (rule assms(1))
next
  case (Inr res)
  obtain out calls where loop:
    "append_loop dbx (res_SessionId res) sizeTotal (after_limited chunkSize r) chunkSize = (out, calls)"
    by (cases "append_loop dbx (res_SessionId res) sizeTotal (after_limited chunkSize r) chunkSize")
  show ?thesis
  proof (cases out)
    case (Inl err)
    with Inr loop show ?thesis by (auto intro: assms(2))
  next
    case (Inr p)
    with \<open>UploadSessionStart dbx (limited chunkSize r) = Inr res\<close> loop show ?thesis
      by (cases p) (auto intro: assms(3))
  qed
qed

text \<open>A chunked upload without error: the shape of its calls and their bytes.\<close>

lemma uploadChunked_session:
  "uploadChunked dbx r commitInfo sizeTotal = (Inr r', calls) \<Longrightarrow>
     start_appends_finish calls \<and> concat (map call_body calls) = r \<and> r' = []"
proof (cases rule: uploadChunked_cases [where dbx = dbx and r = r and sizeTotal = sizeTotal])
  case (start_fails err)
  assume "uploadChunked dbx r commitInfo sizeTotal = (Inr r', calls)"
  with start_fails show ?thesis by (simp add: uploadChunked_start_fails)
next
  case (loop_fails res err cs)
  assume "uploadChunked dbx r commitInfo sizeTotal = (Inr r', calls)"
  with loop_fails show ?thesis by (simp add: uploadChunked_loop_fails)
next
  case (finish res r2 written' cs)
  assume run: "uploadChunked dbx r commitInfo sizeTotal = (Inr r', calls)"
  let ?args = "NewUploadSessionFinishArg (NewUploadSessionCursor (res_SessionId res) written') commitInfo"
  from run uploadChunked_finish [OF finish refl, of commitInfo]
  have calls: "calls = StartCall (limited chunkSize r) # cs @ [FinishCall ?args r2]" and r': "r' = []"
    by (auto split: option.splits)
  have "list_all is_append cs"
    using append_loop_all_appends [of dbx "res_SessionId res" sizeTotal "after_limited chunkSize r" chunkSize]
    by (simp add: finish(2))
  then have shape: "start_appends_finish calls"
    by (simp add: calls appends_then_finish_snoc)
  have "concat (map call_body cs) @ r2 = after_limited chunkSize r"
    by (rule append_loop_bytes [OF finish(2)])
  then have "concat (map call_body calls) = r"
    using limited_after_limited [of chunkSize r] by (simp add: calls)
  with shape r' show ?thesis by simp
qed

text \<open>
  The calls of a chunked upload that ends without error, for a reader of as many
  bytes as \<open>sizeTotal\<close> says, more than one chunk.
\<close>

lemma uploadChunked_calls:
  assumes large: "sint chunkSize < sint sizeTotal"
    and size: "sint sizeTotal = int (length r)"
    and run: "uploadChunked dbx r commitInfo sizeTotal = (Inr r', calls)"
  shows "start_appends_finish calls \<and>
     concat (map call_body calls) = r \<and>
     int (length (filter is_append calls)) = (sint sizeTotal - sint chunkSize - 1) div sint chunkSize \<and>
     length (call_body (hd calls)) = unat chunkSize \<and>
     (\<forall>c \<in> set (filter is_append calls). length (call_body c) = unat chunkSize) \<and>
     1 \<le> length (call_body (last calls)) \<and> length (call_body (last calls)) \<le> unat chunkSize"
proof (cases rule: uploadChunked_cases [where dbx = dbx and r = r and sizeTotal = sizeTotal])
  case (start_fails err)
  with run show ?thesis by (simp add: uploadChunked_start_fails)
next
  case (loop_fails res err cs)
  with run show ?thesis by (simp add: uploadChunked_loop_fails)
next
  case (finish res r2 written' cs)
  let ?args = "NewUploadSessionFinishArg (NewUploadSessionCursor (res_SessionId res) written') commitInfo"
  from run uploadChunked_finish [OF finish refl, of commitInfo]
  have calls: "calls = StartCall (limited chunkSize r) # cs @ [FinishCall ?args r2]"
    by (auto split: option.splits)
  have apps: "list_all is_append cs"
    using append_loop_all_appends [of dbx "res_SessionId res" sizeTotal "after_limited chunkSize r" chunkSize]
    by (simp add: finish(2))
  have filt: "filter is_append calls = cs"
    unfolding calls by (rule filter_is_append_snoc [OF apps])
  have d: "sint (sizeTotal - chunkSize) = sint sizeTotal - sint chunkSize"
    by (rule sint_minus_chunkSize [OF large])
  have long: "unat chunkSize < length r"
    using large size by (simp add: sint_chunkSize unat_chunkSize)
  then have len: "int (length (after_limited chunkSize r)) = sint (sizeTotal - chunkSize)"
    and first: "length (limited chunkSize r) = unat chunkSize"
    and ne: "after_limited chunkSize r \<noteq> []"
    using size by (simp_all add: d after_limited_def limited_def sint_chunkSize unat_chunkSize)
  from append_loop_sizes [OF len finish(2)] ne
  have chunks: "\<forall>c \<in> set cs. length (call_body c) = unat chunkSize"
    and tail: "1 \<le> length r2" "length r2 \<le> unat chunkSize"
    by (simp_all add: sint_chunkSize unat_chunkSize Suc_le_eq)
  have count: "int (length cs) = (sint sizeTotal - sint chunkSize - 1) div sint chunkSize"
    using append_loop_count [OF finish(2)] large by (auto simp: d sint_chunkSize)
  from uploadChunked_session [OF run] filt count first chunks tail show ?thesis
    by (simp add: calls)
qed

lemma uploadChunked_commit:
  "c \<in> set (snd (uploadChunked dbx r commitInfo sizeTotal)) \<Longrightarrow> call_commit c = Some ci \<Longrightarrow>
     ci = commitInfo"
proof (cases rule: uploadChunked_cases [where dbx = dbx and r = r and sizeTotal = sizeTotal])
  case (start_fails err)
  assume "c \<in> set (snd (uploadChunked dbx r commitInfo sizeTotal))" "call_commit c = Some ci"
  with start_fails show ?thesis by (simp add: uploadChunked_start_fails)
next
  case (loop_fails res err cs)
  assume c: "c \<in> set (snd (uploadChunked dbx r commitInfo sizeTotal))" "call_commit c = Some ci"
  have "list_all is_append cs"
    using append_loop_all_appends [of dbx "res_SessionId res" sizeTotal "after_limited chunkSize r" chunkSize]
    by (simp add: loop_fails(2))
  with c show ?thesis
    by (auto simp: uploadChunked_loop_fails [OF loop_fails] dest: appends_no_commit)
next
  case (finish res r' written' cs)
  assume c: "c \<in> set (snd (uploadChunked dbx r commitInfo sizeTotal))" "call_commit c = Some ci"
  have "list_all is_append cs"
    using append_loop_all_appends [of dbx "res_SessionId res" sizeTotal "after_limited chunkSize r" chunkSize]
    by (simp add: finish(2))
  with c show ?thesis
    by (auto simp: uploadChunked_finish [OF finish refl] NewUploadSessionFinishArg_def
          dest: appends_no_commit)
qed

text \<open>The commit metadata of every call of a task is the one the task has built.\<close>

lemma uploadChunked_commit_of:
  "uploadChunked dbx r commitInfo sizeTotal = (res, calls) \<Longrightarrow> c \<in> set calls \<Longrightarrow>
   call_commit c = Some ci \<Longrightarrow> ci = commitInfo"
  using uploadChunked_commit [of c dbx r commitInfo sizeTotal ci] by simp

text \<open>A remote side that accepts every call: the chunked upload returns without error.\<close>

lemma append_loop_accepted:
  "(\<And>a b. UploadSessionAppend dbx a b = None) \<Longrightarrow>
     \<exists>r' written'. fst (append_loop dbx sid sizeTotal r written) = Inr (r', written')"
proof (induction dbx sid sizeTotal r written rule: append_loop.induct)
  case (1 dbx sid sizeTotal r written)
  show ?case
  proof (cases rule: append_loop_cases [where sizeTotal = sizeTotal and written = written and dbx = dbx and sid = sid and r = r])
    case stop
    then show ?thesis by (simp add: append_loop_stop)
  next
    case (fail err)
    with "1.prems" show ?thesis by simp
  next
    case step
    from "1.IH" [OF step(1) refl refl step(2) "1.prems"] step show ?thesis
      by (simp add: append_loop_step)
  qed
qed

lemma uploadChunked_accepted:
  assumes start: "\<And>b. \<exists>res. UploadSessionStart dbx b = Inr res"
    and append: "\<And>a b. UploadSessionAppend dbx a b = None"
    and finish: "\<And>a b. UploadSessionFinish dbx a b = None"
  shows "fst (uploadChunked dbx r commitInfo sizeTotal) = Inr []"
proof -
  obtain res where res: "UploadSessionStart dbx (limited chunkSize r) = Inr res"
    using start by blast
  obtain r' written' where
    "fst (append_loop dbx (res_SessionId res) sizeTotal (after_limited chunkSize r) chunkSize)
       = Inr (r', written')"
    using append_loop_accepted [of dbx "res_SessionId res" sizeTotal "after_limited chunkSize r" chunkSize]
      append by blast
  then have loop: "append_loop dbx (res_SessionId res) sizeTotal (after_limited chunkSize r) chunkSize
       = (Inr (r', written'),
          snd (append_loop dbx (res_SessionId res) sizeTotal (after_limited chunkSize r) chunkSize))"
    by (simp add: prod_eq_iff)
  show ?thesis
    using uploadChunked_finish [OF res loop refl, of commitInfo] finish by simp
qed

text \<open>
  C2: on a remote side that accepts every call, the chunked upload of a stream returns
  without error; and whenever it returns without error, its calls are one start call,
  then the append calls, then one finish call, and the bytes of these calls, put one
  after the other in this order, are the bytes of the stream: each byte is sent once,
  in its place, and the reader is left empty. This holds for every stream and every
  \<open>sizeTotal\<close>, so for the streams of more than \<open>chunkSize\<close> bytes that \<open>put\<close> hands
  over.
\<close>

theorem uploadChunked_round_trip:
  "((\<forall>b. \<exists>res. UploadSessionStart dbx b = Inr res) \<and>
    (\<forall>a b. UploadSessionAppend dbx a b = None) \<and>
    (\<forall>a b. UploadSessionFinish dbx a b = None) \<longrightarrow>
      fst (uploadChunked dbx r commitInfo sizeTotal) = Inr []) \<and>
   (fst (uploadChunked dbx r commitInfo sizeTotal) = Inr r' \<longrightarrow>
      start_appends_finish (snd (uploadChunked dbx r commitInfo sizeTotal)) \<and>
      concat (map call_body (snd (uploadChunked dbx r commitInfo sizeTotal))) = r \<and>
      r' = [])"
proof (intro conjI impI)
  assume "(\<forall>b. \<exists>res. UploadSessionStart dbx b = Inr res) \<and>
    (\<forall>a b. UploadSessionAppend dbx a b = None) \<and>
    (\<forall>a b. UploadSessionFinish dbx a b = None)"
  then show "fst (uploadChunked dbx r commitInfo sizeTotal) = Inr []"
    by (intro uploadChunked_accepted) simp_all
next
  assume "fst (uploadChunked dbx r commitInfo sizeTotal) = Inr r'"
  then have run: "uploadChunked dbx r commitInfo sizeTotal =
      (Inr r', snd (uploadChunked dbx r commitInfo sizeTotal))"
    by (simp add: prod_eq_iff)
  from uploadChunked_session [OF run]
  show "start_appends_finish (snd (uploadChunked dbx r commitInfo sizeTotal))"
    and "concat (map call_body (snd (uploadChunked dbx r commitInfo sizeTotal))) = r"
    and "r' = []"
    by simp_all
qed

text \<open>Two chunks and two bytes: one start call, one append call, one finish call.\<close>

theorem uploadChunked_round_trip_witness:
  "(\<forall>b. \<exists>res. UploadSessionStart dbx_ok b = Inr res) \<and>
   (\<forall>a b. UploadSessionAppend dbx_ok a b = None) \<and>
   (\<forall>a b. UploadSessionFinish dbx_ok a b = None) \<and>
   uploadChunked dbx_ok (replicate 16777216 1 @ replicate 16777216 2 @ [3, 4])
      (NewCommitInfo ''/f'') 33554434 =
     (Inr [],
      [StartCall (replicate 16777216 1),
       AppendCall \<lparr>SessionId = ''sid'', Offset = 16777216\<rparr> (replicate 16777216 2),
       FinishCall \<lparr>Cursor = \<lparr>SessionId = ''sid'', Offset = 33554432\<rparr>,
                    Commit = NewCommitInfo ''/f''\<rparr> [3, 4]]) \<and>
   start_appends_finish
     (snd (uploadChunked dbx_ok (replicate 16777216 1 @ replicate 16777216 2 @ [3, 4])
        (NewCommitInfo ''/f'') 33554434)) \<and>
   concat (map call_body
     (snd (uploadChunked dbx_ok (replicate 16777216 1 @ replicate 16777216 2 @ [3, 4])
        (NewCommitInfo ''/f'') 33554434))) =
     replicate 16777216 1 @ replicate 16777216 2 @ [3, 4]"
proof -
  let ?r = "replicate 16777216 (1 :: byte) @ replicate 16777216 2 @ [3, 4]"
  have accepted: "(\<forall>b. \<exists>res. UploadSessionStart dbx_ok b = Inr res) \<and>
      (\<forall>a b. UploadSessionAppend dbx_ok a b = None) \<and>
      (\<forall>a b. UploadSessionFinish dbx_ok a b = None)"
    by (simp add: dbx_ok_def)
  have run: "uploadChunked dbx_ok ?r (NewCommitInfo ''/f'') 33554434 =
     (Inr [],
      [StartCall (replicate 16777216 1),
       AppendCall \<lparr>SessionId = ''sid'', Offset = 16777216\<rparr> (replicate 16777216 2),
       FinishCall \<lparr>Cursor = \<lparr>SessionId = ''sid'', Offset = 33554432\<rparr>,
                    Commit = NewCommitInfo ''/f''\<rparr> [3, 4]])"
    by (simp add: uploadChunked_def append_loop.simps dbx_ok_def limited_def
      after_limited_def chunkSize_def NewUploadSessionFinishArg_def NewUploadSessionCursor_def)
  from uploadChunked_round_trip [of dbx_ok ?r "NewCommitInfo ''/f''" 33554434 "[]"] accepted
  have "start_appends_finish (snd (uploadChunked dbx_ok ?r (NewCommitInfo ''/f'') 33554434))"
    and "concat (map call_body (snd (uploadChunked dbx_ok ?r (NewCommitInfo ''/f'') 33554434))) = ?r"
    by blast+
  with accepted run show ?thesis
    by blast
qed

text \<open>
  C5: in every chunked upload whose start call succeeds, the first call is the start
  call with the first chunk, and the calls after it are tagged as follows, whether the
  upload ends well or not. The local counter \<open>written\<close> is \<open>chunkSize\<close> after the
  start call; the \<open>k\<close>-th append call carries the session id that the start call
  returned and the offset \<open>k * chunkSize\<close>, which is the counter at that moment, one
  chunk more than at the call before; and the cursor of the finish call carries the
  same session id and the counter at the exit of the loop, one chunk for the start call
  and one for each append call. The offsets are read as numbers: they never wrap around.
\<close>

theorem uploadChunked_tagged:
  "UploadSessionStart dbx (limited chunkSize r) = Inr res \<Longrightarrow>
     hd (snd (uploadChunked dbx r commitInfo sizeTotal)) = StartCall (limited chunkSize r) \<and>
     session_tagged (res_SessionId res) 1 (tl (snd (uploadChunked dbx r commitInfo sizeTotal)))"
proof (cases rule: uploadChunked_cases [where dbx = dbx and r = r and sizeTotal = sizeTotal])
  case (start_fails err)
  assume "UploadSessionStart dbx (limited chunkSize r) = Inr res"
  with start_fails show ?thesis by simp
next
  case (loop_fails res' err cs)
  assume start: "UploadSessionStart dbx (limited chunkSize r) = Inr res"
  with loop_fails have res: "res' = res" by simp
  have "1 * unat chunkSize + nat (sint (sizeTotal - chunkSize)) < 2 ^ 63 + unat chunkSize"
    using sint_lt [of "sizeTotal - chunkSize"] by simp
  from append_loop_tagged [where k = 1, OF _ this, of "res_SessionId res" dbx "after_limited chunkSize r"]
  have "session_tagged (res_SessionId res) 1 cs"
    using loop_fails(2) by (simp add: res)
  then show ?thesis
    using loop_fails by (simp add: uploadChunked_loop_fails res)
next
  case (finish res' r2 written' cs)
  assume start: "UploadSessionStart dbx (limited chunkSize r) = Inr res"
  with finish have res: "res' = res" by simp
  let ?args = "NewUploadSessionFinishArg (NewUploadSessionCursor (res_SessionId res) written') commitInfo"
  have "1 * unat chunkSize + nat (sint (sizeTotal - chunkSize)) < 2 ^ 63 + unat chunkSize"
    using sint_lt [of "sizeTotal - chunkSize"] by simp
  from append_loop_tagged [where k = 1, OF _ this, of "res_SessionId res" dbx "after_limited chunkSize r"]
  have tagged: "session_tagged (res_SessionId res) 1 cs"
    and written': "unat written' = (1 + length cs) * unat chunkSize"
    using finish(2) by (simp_all add: res)
  have "list_all is_append cs"
    using append_loop_all_appends [of dbx "res_SessionId res" sizeTotal "after_limited chunkSize r" chunkSize]
    by (simp add: finish(2) [unfolded res])
  then have "session_tagged (res_SessionId res) 1 (cs @ [FinishCall ?args r2])"
    using tagged written'
    by (intro session_tagged_snoc)
       (simp_all add: NewUploadSessionFinishArg_def NewUploadSessionCursor_def)
  then show ?thesis
    using uploadChunked_finish [OF start finish(2) [unfolded res] refl, of commitInfo] by simp
qed

theorem uploadChunked_tagged_witness:
  "UploadSessionStart dbx_ok (limited chunkSize (replicate 33554434 9)) = Inr \<lparr>res_SessionId = ''sid''\<rparr> \<and>
   snd (uploadChunked dbx_ok (replicate 33554434 9) (NewCommitInfo ''/f'') 33554434) =
     [StartCall (replicate 16777216 9),
      AppendCall \<lparr>SessionId = ''sid'', Offset = 16777216\<rparr> (replicate 16777216 9),
      FinishCall \<lparr>Cursor = \<lparr>SessionId = ''sid'', Offset = 33554432\<rparr>,
                   Commit = NewCommitInfo ''/f''\<rparr> (replicate 2 9)] \<and>
   session_tagged ''sid'' 1
     (tl (snd (uploadChunked dbx_ok (replicate 33554434 9) (NewCommitInfo ''/f'') 33554434)))"
proof -
  have start: "UploadSessionStart dbx_ok (limited chunkSize (replicate 33554434 9)) =
      Inr \<lparr>res_SessionId = ''sid''\<rparr>"
    by (simp add: dbx_ok_def)
  have run: "snd (uploadChunked dbx_ok (replicate 33554434 9) (NewCommitInfo ''/f'') 33554434) =
     [StartCall (replicate 16777216 9),
      AppendCall \<lparr>SessionId = ''sid'', Offset = 16777216\<rparr> (replicate 16777216 9),
      FinishCall \<lparr>Cursor = \<lparr>SessionId = ''sid'', Offset = 33554432\<rparr>,
                   Commit = NewCommitInfo ''/f''\<rparr> (replicate 2 9)]"
    by (simp add: uploadChunked_def append_loop.simps dbx_ok_def limited_def
      after_limited_def chunkSize_def NewUploadSessionFinishArg_def NewUploadSessionCursor_def)
  from uploadChunked_tagged [OF start, of "NewCommitInfo ''/f''" 33554434] start run
  show ?thesis by simp
qed

text \<open>
  C6: the loop of append calls terminates for every \<open>sizeTotal\<close> (the function
  \<open>append_loop\<close> is total, by the measure \<open>sizeTotal - written\<close>). Before each pass
  that runs, \<open>sizeTotal - written\<close> is more than \<open>chunkSize\<close>, and the pass lowers it
  by \<open>chunkSize\<close> exactly, in the arithmetic of \<open>int64\<close>; so the number of passes,
  one append call each, is at most \<open>(sizeTotal - written) div chunkSize\<close>. And an
  append call that fails is the last call of the upload: its error is returned and no
  finish call is made.
\<close>

theorem append_loop_terminates:
  "(sint chunkSize < sint (sizeTotal - written) \<longrightarrow>
      sint (sizeTotal - (written + chunkSize)) = sint (sizeTotal - written) - sint chunkSize) \<and>
   length (snd (append_loop dbx sid sizeTotal r written))
     \<le> nat (sint (sizeTotal - written)) div unat chunkSize \<and>
   (\<forall>a b err. AppendCall a b \<in> set (snd (uploadChunked dbx r0 commitInfo sizeTotal)) \<longrightarrow>
      UploadSessionAppend dbx a b = Some err \<longrightarrow>
        fst (uploadChunked dbx r0 commitInfo sizeTotal) = Inl err \<and>
        last (snd (uploadChunked dbx r0 commitInfo sizeTotal)) = AppendCall a b \<and>
        \<not> list_ex is_finish (snd (uploadChunked dbx r0 commitInfo sizeTotal)))"
proof (intro conjI allI impI)
  assume "sint chunkSize < sint (sizeTotal - written)"
  then show "sint (sizeTotal - (written + chunkSize)) = sint (sizeTotal - written) - sint chunkSize"
    by (rule remaining_decreases)
next
  show "length (snd (append_loop dbx sid sizeTotal r written))
     \<le> nat (sint (sizeTotal - written)) div unat chunkSize"
    by (rule append_loop_length)
next
  fix a b err
  assume mem: "AppendCall a b \<in> set (snd (uploadChunked dbx r0 commitInfo sizeTotal))"
    and err: "UploadSessionAppend dbx a b = Some err"
  have "fst (uploadChunked dbx r0 commitInfo sizeTotal) = Inl err \<and>
        last (snd (uploadChunked dbx r0 commitInfo sizeTotal)) = AppendCall a b \<and>
        \<not> list_ex is_finish (snd (uploadChunked dbx r0 commitInfo sizeTotal))"
  proof (cases rule: uploadChunked_cases [where dbx = dbx and r = r0 and sizeTotal = sizeTotal])
    case (start_fails e)
    with mem show ?thesis by (simp add: uploadChunked_start_fails)
  next
    case (loop_fails res e cs)
    let ?loop = "append_loop dbx (res_SessionId res) sizeTotal (after_limited chunkSize r0) chunkSize"
    from mem loop_fails have "AppendCall a b \<in> set (snd ?loop)"
      by (simp add: uploadChunked_loop_fails)
    from append_loop_failed_call [OF this err] loop_fails(2)
    have e: "e = err" and l: "last cs = AppendCall a b" and ne: "cs \<noteq> []"
      using \<open>AppendCall a b \<in> set (snd ?loop)\<close> by auto
    have "list_all is_append cs"
      using append_loop_all_appends [of dbx "res_SessionId res" sizeTotal "after_limited chunkSize r0" chunkSize]
      by (simp add: loop_fails(2))
    then have "\<not> list_ex is_finish cs"
      by (rule appends_no_finish)
    with e l ne show ?thesis
      by (simp add: uploadChunked_loop_fails [OF loop_fails])
  next
    case (finish res r' written' cs)
    let ?loop = "append_loop dbx (res_SessionId res) sizeTotal (after_limited chunkSize r0) chunkSize"
    from mem have "AppendCall a b \<in> set (snd ?loop)"
      by (simp add: uploadChunked_finish [OF finish refl] finish(2))
    from append_loop_failed_call [OF this err] finish(2) show ?thesis
      by simp
  qed
  then show "fst (uploadChunked dbx r0 commitInfo sizeTotal) = Inl err"
    and "last (snd (uploadChunked dbx r0 commitInfo sizeTotal)) = AppendCall a b"
    and "\<not> list_ex is_finish (snd (uploadChunked dbx r0 commitInfo sizeTotal))"
    by simp_all
qed

text \<open>
  Three chunks and five bytes: two passes when the remote side accepts the appends, and
  one pass, with no finish call, when it refuses them.
\<close>

theorem append_loop_terminates_witness:
  "sint chunkSize < sint ((50331653 :: int64) - chunkSize) \<and>
   sint ((50331653 :: int64) - (chunkSize + chunkSize)) = sint ((50331653 :: int64) - chunkSize) - sint chunkSize \<and>
   length (snd (append_loop dbx_ok ''sid'' 50331653 (replicate 33554437 7) chunkSize)) \<le> 2 \<and>
   nat (sint ((50331653 :: int64) - chunkSize)) div unat chunkSize = 2 \<and>
   UploadSessionAppend dbx_append_fails \<lparr>SessionId = ''sid'', Offset = 16777216\<rparr> (replicate 16777216 7) =
     Some (Error ''append'') \<and>
   uploadChunked dbx_append_fails (replicate 50331653 7) (NewCommitInfo ''/f'') 50331653 =
     (Inl (Error ''append''),
      [StartCall (replicate 16777216 7),
       AppendCall \<lparr>SessionId = ''sid'', Offset = 16777216\<rparr> (replicate 16777216 7)]) \<and>
   \<not> list_ex is_finish
     (snd (uploadChunked dbx_append_fails (replicate 50331653 7) (NewCommitInfo ''/f'') 50331653))"
proof -
  have cond: "sint chunkSize < sint ((50331653 :: int64) - chunkSize)"
    by (simp add: chunkSize_def)
  have bound: "nat (sint ((50331653 :: int64) - chunkSize)) div unat chunkSize = 2"
    by (simp add: chunkSize_def)
  have err: "UploadSessionAppend dbx_append_fails \<lparr>SessionId = ''sid'', Offset = 16777216\<rparr>
      (replicate 16777216 7) = Some (Error ''append'')"
    by (simp add: dbx_append_fails_def dbx_ok_def)
  have run: "uploadChunked dbx_append_fails (replicate 50331653 7) (NewCommitInfo ''/f'') 50331653 =
     (Inl (Error ''append''),
      [StartCall (replicate 16777216 7),
       AppendCall \<lparr>SessionId = ''sid'', Offset = 16777216\<rparr> (replicate 16777216 7)])"
    by (simp add: uploadChunked_def append_loop.simps dbx_ok_def dbx_append_fails_def limited_def
      after_limited_def chunkSize_def NewUploadSessionFinishArg_def NewUploadSessionCursor_def)
  from append_loop_terminates [where sizeTotal = 50331653 and written = chunkSize
      and dbx = dbx_append_fails and sid = "''sid''" and r = "replicate 33554437 7"
      and ?r0.0 = "replicate 50331653 7" and commitInfo = "NewCommitInfo ''/f''"]
  have dec: "sint ((50331653 :: int64) - (chunkSize + chunkSize)) =
      sint ((50331653 :: int64) - chunkSize) - sint chunkSize"
    and nofin: "\<not> list_ex is_finish
     (snd (uploadChunked dbx_append_fails (replicate 50331653 7) (NewCommitInfo ''/f'') 50331653))"
    using cond err run by simp_all
  from append_loop_terminates [where sizeTotal = 50331653 and written = chunkSize
      and dbx = dbx_ok and sid = "''sid''" and r = "replicate 33554437 7"]
  have len: "length (snd (append_loop dbx_ok ''sid'' 50331653 (replicate 33554437 7) chunkSize)) \<le> 2"
    using bound by simp
  from cond dec len bound err run nofin show ?thesis
    by (intro conjI)
qed

subsection \<open>One task\<close>

text \<open>
  A task that gets its destination, its file and the size of the file: the chunked
  upload if the file is large, and then, unless that failed, the single upload.
\<close>

lemma put_task_run:
  assumes "(if destination \<noteq> [] then validatePath e (fullName arg destination)
            else Inr (''/'' @ path_Base arg)) = Inr dst"
    and "os_Open e arg = Inr f" and "Stat f = Inr info"
    and "commitInfo = (NewCommitInfo dst)
           \<lparr>Mode_Tag := ''overwrite'',
            ClientModified := time_Round (time_UTC (time_Now e)) Second\<rparr>"
  shows "put_task e destination arg =
     (case (if sint chunkSize < sint (Size info)
            then uploadChunked (files_New e) (contents f) commitInfo (Size info)
            else (Inr (contents f), [])) of
        (Inl err, calls) \<Rightarrow> (Some err, calls)
      | (Inr progressbar, calls) \<Rightarrow>
          (case Upload (files_New e) commitInfo progressbar of
             Some err \<Rightarrow> Some (Error (''Did not upload '' @ arg))
           | None \<Rightarrow> None,
           calls @ [UploadCall commitInfo progressbar]))"
  unfolding put_task_def assms(1) using assms(2-)
  by (simp add: uploadFile_def Let_def split: sum.splits option.splits prod.splits)

lemma put_task_no_dst:
  assumes "(if destination \<noteq> [] then validatePath e (fullName arg destination)
            else Inr (''/'' @ path_Base arg)) = Inl err"
  shows "put_task e destination arg = (Some err, [])"
  unfolding put_task_def assms by simp

lemma put_task_no_file:
  assumes "(if destination \<noteq> [] then validatePath e (fullName arg destination)
            else Inr (''/'' @ path_Base arg)) = Inr dst"
    and "os_Open e arg = Inl err"
  shows "put_task e destination arg = (Some err, [])"
  unfolding put_task_def assms by simp

lemma put_task_no_stat:
  assumes "(if destination \<noteq> [] then validatePath e (fullName arg destination)
            else Inr (''/'' @ path_Base arg)) = Inr dst"
    and "os_Open e arg = Inr f" and "Stat f = Inl err"
  shows "put_task e destination arg = (Some err, [])"
  unfolding put_task_def assms(1) using assms(2-) by simp

lemma put_task_commit:
  assumes c: "c \<in> set (snd (put_task e destination arg))" and ci: "call_commit c = Some ci"
  shows "Mode_Tag ci = ''overwrite'' \<and>
     ClientModified ci = time_Round (time_UTC (time_Now e)) Second \<and>
     (if destination = [] then Path ci = ''/'' @ path_Base arg
      else validatePath e (fullName arg destination) = Inr (Path ci))"
proof -
  let ?dst = "if destination \<noteq> [] then validatePath e (fullName arg destination)
              else Inr (''/'' @ path_Base arg)"
  obtain dst where dst: "?dst = Inr dst"
    using c put_task_no_dst [of destination e arg] by (cases ?dst) auto
  obtain f where f: "os_Open e arg = Inr f"
    using c put_task_no_file [OF dst] by (cases "os_Open e arg") auto
  obtain info where info: "Stat f = Inr info"
    using c put_task_no_stat [OF dst f] by (cases "Stat f") auto
  define commitInfo where "commitInfo = (NewCommitInfo dst)
           \<lparr>Mode_Tag := ''overwrite'',
            ClientModified := time_Round (time_UTC (time_Now e)) Second\<rparr>"
  have "ci = commitInfo"
    using c ci unfolding put_task_run [OF dst f info commitInfo_def]
    by (auto split: if_splits sum.splits prod.splits dest: uploadChunked_commit_of)
  with dst show ?thesis
    by (auto simp: commitInfo_def NewCommitInfo_def split: if_splits)
qed

lemma put_task_ModTime:
  "put_task (with_ModTime m e) destination arg = put_task e destination arg"
  by (cases "os_Open e arg"; cases "validatePath e (fullName arg destination)")
     (auto simp: put_task_def with_ModTime_def Let_def split: sum.splits)

text \<open>A file of at most \<open>chunkSize\<close> bytes: one \<open>Upload\<close> call with all its bytes.\<close>

lemma put_task_small_file:
  assumes "(if destination \<noteq> [] then validatePath e (fullName arg destination)
            else Inr (''/'' @ path_Base arg)) = Inr dst"
    and "os_Open e arg = Inr f" and "Stat f = Inr info"
    and "commitInfo = (NewCommitInfo dst)
           \<lparr>Mode_Tag := ''overwrite'',
            ClientModified := time_Round (time_UTC (time_Now e)) Second\<rparr>"
    and "\<not> sint chunkSize < sint (Size info)"
  shows "snd (put_task e destination arg) = [UploadCall commitInfo (contents f)]"
  unfolding put_task_run [OF assms(1-4)] using assms(5) by simp

text \<open>
  A larger file, in a task that returns no error: the calls of the chunked upload,
  which has read the file to the end, and then one more \<open>Upload\<close> call, with the same
  commit metadata and no bytes.
\<close>

lemma put_task_large_file:
  assumes "(if destination \<noteq> [] then validatePath e (fullName arg destination)
            else Inr (''/'' @ path_Base arg)) = Inr dst"
    and "os_Open e arg = Inr f" and "Stat f = Inr info"
    and "commitInfo = (NewCommitInfo dst)
           \<lparr>Mode_Tag := ''overwrite'',
            ClientModified := time_Round (time_UTC (time_Now e)) Second\<rparr>"
    and large: "sint chunkSize < sint (Size info)"
    and ok: "fst (put_task e destination arg) = None"
  shows "fst (uploadChunked (files_New e) (contents f) commitInfo (Size info)) = Inr [] \<and>
     snd (put_task e destination arg) =
       snd (uploadChunked (files_New e) (contents f) commitInfo (Size info)) @
       [UploadCall commitInfo []]"
proof -
  obtain res calls where
    run: "uploadChunked (files_New e) (contents f) commitInfo (Size info) = (res, calls)"
    by (cases "uploadChunked (files_New e) (contents f) commitInfo (Size info)")
  show ?thesis
  proof (cases res)
    case (Inl err)
    with ok large run show ?thesis
      unfolding put_task_run [OF assms(1-4)] by simp
  next
    case (Inr r')
    with run uploadChunked_session [of "files_New e" "contents f" commitInfo "Size info" r' calls]
    have "r' = []" by simp
    with Inr large run show ?thesis
      unfolding put_task_run [OF assms(1-4)] by simp
  qed
qed

text \<open>
  C1: a file of \<open>chunkSize + 1\<close> bytes, on a remote side that accepts every call. The
  task makes the start call with \<open>chunkSize\<close> bytes, no append call, the finish call
  with the last byte, and then a single-shot \<open>Upload\<close> call with no bytes and the same
  commit metadata (mode overwrite): after \<open>uploadChunked\<close> has returned without error,
  line 122 is reached as it is for a small file.
\<close>

theorem chunked_upload_then_upload:
  "put_task (env_of (replicate 16777216 1 @ [2]) \<lparr>abs_ns = 0, loc = UTC\<rparr> dbx_ok) [] ''big.bin'' =
     (None,
      [StartCall (replicate 16777216 1),
       FinishCall \<lparr>Cursor = \<lparr>SessionId = ''sid'', Offset = 16777216\<rparr>,
                    Commit = \<lparr>Path = ''/big.bin'', Mode_Tag = ''overwrite'',
                               ClientModified = \<lparr>abs_ns = 0, loc = UTC\<rparr>\<rparr>\<rparr> [2],
       UploadCall \<lparr>Path = ''/big.bin'', Mode_Tag = ''overwrite'',
                    ClientModified = \<lparr>abs_ns = 0, loc = UTC\<rparr>\<rparr> []])"
  by (simp add: put_task_def env_of_def dbx_ok_def uploadFile_def NewCommitInfo_def
        time_Round_def time_UTC_def Second_def path_Base_def chunkSize_def
        uploadChunked_def append_loop.simps limited_def after_limited_def
        NewUploadSessionFinishArg_def NewUploadSessionCursor_def Let_def)

text \<open>
  C4: the destination \<open>/x\<close> and the source \<open>dir/a.txt\<close>. The path that is validated
  and sent is \<open>/x/dir/a.txt\<close>: line 82 hands the whole argument to \<open>fullName\<close>, not its
  base name as line 79 does. The destination without its trailing slash, a slash and the
  base name of the source would be \<open>/x/a.txt\<close>.
\<close>

theorem destination_keeps_source_directories:
  "put_task (env_of [1, 2, 3] \<lparr>abs_ns = 0, loc = UTC\<rparr> dbx_ok) ''/x'' ''dir/a.txt'' =
     (None, [UploadCall \<lparr>Path = ''/x/dir/a.txt'', Mode_Tag = ''overwrite'',
                          ClientModified = \<lparr>abs_ns = 0, loc = UTC\<rparr>\<rparr> [1, 2, 3]]) \<and>
   TrimSuffix ''/x'' ''/'' @ ''/'' @ path_Base ''dir/a.txt'' = ''/x/a.txt''"
  by (simp add: put_task_def env_of_def dbx_ok_def uploadFile_def NewCommitInfo_def
        time_Round_def time_UTC_def Second_def path_Base_def chunkSize_def
        fullName_def TrimSuffix_def HasSuffix_def validatePath_spec_def)

text \<open>
  C7: \<open>fullName\<close> of \<open>a.txt\<close> and \<open>/x/\<close>, and of \<open>a.txt\<close> and \<open>/x\<close>, is \<open>/x/a.txt\<close>;
  and when no destination is supplied (the flag is the empty string), the path in the
  commit metadata of every call of the task is a slash followed by the base name of the
  source path.
\<close>

theorem default_remote_path:
  "fullName ''a.txt'' ''/x/'' = ''/x/a.txt'' \<and>
   fullName ''a.txt'' ''/x'' = ''/x/a.txt'' \<and>
   (\<forall>c \<in> set (snd (put_task e [] arg)). \<forall>ci. call_commit c = Some ci \<longrightarrow>
      Path ci = ''/'' @ path_Base arg)"
proof (intro conjI ballI allI impI)
  show "fullName ''a.txt'' ''/x/'' = ''/x/a.txt''"
    by (simp add: fullName_def TrimSuffix_def HasSuffix_def)
  show "fullName ''a.txt'' ''/x'' = ''/x/a.txt''"
    by (simp add: fullName_def TrimSuffix_def HasSuffix_def)
next
  fix c ci
  assume "c \<in> set (snd (put_task e [] arg))" and "call_commit c = Some ci"
  from put_task_commit [OF this] show "Path ci = ''/'' @ path_Base arg"
    by simp
qed

theorem default_remote_path_witness:
  "put_task (env_of [1, 2, 3] \<lparr>abs_ns = 0, loc = Local\<rparr> dbx_ok) [] ''dir/sub/a.txt'' =
     (None, [UploadCall \<lparr>Path = ''/a.txt'', Mode_Tag = ''overwrite'',
                          ClientModified = \<lparr>abs_ns = 0, loc = UTC\<rparr>\<rparr> [1, 2, 3]]) \<and>
   ''/a.txt'' = ''/'' @ path_Base ''dir/sub/a.txt''"
proof -
  let ?e = "env_of [1, 2, 3] \<lparr>abs_ns = 0, loc = Local\<rparr> dbx_ok"
  let ?ci = "\<lparr>Path = ''/a.txt'', Mode_Tag = ''overwrite'',
              ClientModified = \<lparr>abs_ns = 0, loc = UTC\<rparr>\<rparr>"
  have run: "put_task ?e [] ''dir/sub/a.txt'' = (None, [UploadCall ?ci [1, 2, 3]])"
    by (simp add: put_task_def env_of_def dbx_ok_def uploadFile_def NewCommitInfo_def
        time_Round_def time_UTC_def Second_def path_Base_def chunkSize_def)
  from default_remote_path [of ?e "''dir/sub/a.txt''"]
  have "\<forall>c \<in> set (snd (put_task ?e [] ''dir/sub/a.txt'')). \<forall>ci. call_commit c = Some ci \<longrightarrow>
      Path ci = ''/'' @ path_Base ''dir/sub/a.txt''"
    by blast
  then have "Path ?ci = ''/'' @ path_Base ''dir/sub/a.txt''"
    unfolding run by simp
  with run show ?thesis by simp
qed

text \<open>
  C8, as stated, fails: with the clock at 1.5 seconds, the timestamp sent is 2 seconds,
  later than the clock.
\<close>

theorem client_modified_rounds_up:
  "time_Now (env_of [1, 2, 3] \<lparr>abs_ns = 1500000000, loc = Local\<rparr> dbx_ok) =
     \<lparr>abs_ns = 1500000000, loc = Local\<rparr> \<and>
   put_task (env_of [1, 2, 3] \<lparr>abs_ns = 1500000000, loc = Local\<rparr> dbx_ok) [] ''a.txt'' =
     (None, [UploadCall \<lparr>Path = ''/a.txt'', Mode_Tag = ''overwrite'',
                          ClientModified = \<lparr>abs_ns = 2000000000, loc = UTC\<rparr>\<rparr> [1, 2, 3]])"
  by (simp add: put_task_def env_of_def dbx_ok_def uploadFile_def NewCommitInfo_def
        time_Round_def time_UTC_def Second_def path_Base_def chunkSize_def)

text \<open>
  C8, amended: for every upload (single-shot or chunked), the client-modified timestamp
  in the commit metadata is in UTC and is a whole number of seconds: the clock rounded
  to the nearest second, down when the part below the second is less than half a
  second, and up to the next second otherwise.
\<close>

theorem client_modified_nearest_second:
  assumes "c \<in> set (snd (put_task e destination arg))" and "call_commit c = Some ci"
  shows "loc (ClientModified ci) = UTC \<and>
     abs_ns (ClientModified ci) mod Second = 0 \<and>
     abs_ns (ClientModified ci) =
       (if 2 * (abs_ns (time_Now e) mod Second) < Second
        then abs_ns (time_Now e) - abs_ns (time_Now e) mod Second
        else abs_ns (time_Now e) - abs_ns (time_Now e) mod Second + Second)"
proof -
  define n where "n = abs_ns (time_Now e)"
  define r where "r = n mod Second"
  have cm: "ClientModified ci = time_Round (time_UTC (time_Now e)) Second"
    using put_task_commit [OF assms] by simp
  have pos: "\<not> Second \<le> 0"
    by (simp add: Second_def)
  have round: "time_Round (time_UTC (time_Now e)) Second =
      (if 2 * r < Second then \<lparr>abs_ns = n - r, loc = UTC\<rparr>
       else \<lparr>abs_ns = n - r + Second, loc = UTC\<rparr>)"
    using pos by (simp add: time_Round_def time_UTC_def Let_def n_def r_def)
  have down: "(n - r) mod Second = 0"
    by (simp add: r_def minus_mod_eq_mult_div)
  then have up: "(n - r + Second) mod Second = 0"
    by simp
  from down up show ?thesis
    unfolding cm round n_def [symmetric] r_def [symmetric] by simp
qed

theorem client_modified_nearest_second_witness:
  "UploadCall \<lparr>Path = ''/a.txt'', Mode_Tag = ''overwrite'',
                ClientModified = \<lparr>abs_ns = 2000000000, loc = UTC\<rparr>\<rparr> [1, 2, 3]
     \<in> set (snd (put_task (env_of [1, 2, 3] \<lparr>abs_ns = 1500000000, loc = Local\<rparr> dbx_ok) [] ''a.txt'')) \<and>
   (2000000000 :: int) mod Second = 0 \<and>
   \<not> 2 * (abs_ns (time_Now (env_of [1, 2, 3] \<lparr>abs_ns = 1500000000, loc = Local\<rparr> dbx_ok)) mod Second)
       < Second \<and>
   (2000000000 :: int) = 1500000000 - 1500000000 mod Second + Second"
proof -
  let ?e = "env_of [1, 2, 3] \<lparr>abs_ns = 1500000000, loc = Local\<rparr> dbx_ok"
  let ?ci = "\<lparr>Path = ''/a.txt'', Mode_Tag = ''overwrite'',
              ClientModified = \<lparr>abs_ns = 2000000000, loc = UTC\<rparr>\<rparr>"
  have run: "put_task ?e [] ''a.txt'' = (None, [UploadCall ?ci [1, 2, 3]])"
    by (simp add: put_task_def env_of_def dbx_ok_def uploadFile_def NewCommitInfo_def
        time_Round_def time_UTC_def Second_def path_Base_def chunkSize_def)
  then have mem: "UploadCall ?ci [1, 2, 3] \<in> set (snd (put_task ?e [] ''a.txt''))"
    by simp
  have now: "abs_ns (time_Now ?e) = 1500000000"
    by (simp add: env_of_def)
  from client_modified_nearest_second [OF mem, of ?ci] mem now show ?thesis
    by (simp add: Second_def)
qed

text \<open>
  C10: the client-modified timestamp in the commit metadata of every call is computed
  from the clock that the task reads (\<open>time.Now\<close>); and the modification time that
  \<open>Stat\<close> reports is never read: a task in a world that differs only in the modification
  times of the files returns the same error and makes the same calls.
\<close>

theorem client_modified_from_clock:
  "put_task (with_ModTime m e) destination arg = put_task e destination arg \<and>
   (\<forall>c \<in> set (snd (put_task e destination arg)). \<forall>ci. call_commit c = Some ci \<longrightarrow>
      ClientModified ci = time_Round (time_UTC (time_Now e)) Second)"
  using put_task_commit [of _ e destination arg] by (simp add: put_task_ModTime)

theorem client_modified_from_clock_witness:
  "os_Open (env_of [1, 2, 3] \<lparr>abs_ns = 1500000000, loc = Local\<rparr> dbx_ok) ''a.txt'' =
     Inr \<lparr>contents = [1, 2, 3],
          Stat = Inr \<lparr>Size = 3, ModTime = \<lparr>abs_ns = 5, loc = Local\<rparr>\<rparr>\<rparr> \<and>
   os_Open (with_ModTime (\<lambda>p. \<lparr>abs_ns = 7000000000, loc = UTC\<rparr>)
              (env_of [1, 2, 3] \<lparr>abs_ns = 1500000000, loc = Local\<rparr> dbx_ok)) ''a.txt'' =
     Inr \<lparr>contents = [1, 2, 3],
          Stat = Inr \<lparr>Size = 3, ModTime = \<lparr>abs_ns = 7000000000, loc = UTC\<rparr>\<rparr>\<rparr> \<and>
   put_task (with_ModTime (\<lambda>p. \<lparr>abs_ns = 7000000000, loc = UTC\<rparr>)
              (env_of [1, 2, 3] \<lparr>abs_ns = 1500000000, loc = Local\<rparr> dbx_ok)) [] ''a.txt'' =
     (None, [UploadCall \<lparr>Path = ''/a.txt'', Mode_Tag = ''overwrite'',
                          ClientModified = \<lparr>abs_ns = 2000000000, loc = UTC\<rparr>\<rparr> [1, 2, 3]]) \<and>
   time_Round (time_UTC (time_Now (env_of [1, 2, 3] \<lparr>abs_ns = 1500000000, loc = Local\<rparr> dbx_ok))) Second =
     \<lparr>abs_ns = 2000000000, loc = UTC\<rparr>"
proof -
  let ?e = "env_of [1, 2, 3] \<lparr>abs_ns = 1500000000, loc = Local\<rparr> dbx_ok"
  let ?ci = "\<lparr>Path = ''/a.txt'', Mode_Tag = ''overwrite'',
              ClientModified = \<lparr>abs_ns = 2000000000, loc = UTC\<rparr>\<rparr>"
  have run: "put_task ?e [] ''a.txt'' = (None, [UploadCall ?ci [1, 2, 3]])"
    by (simp add: put_task_def env_of_def dbx_ok_def uploadFile_def NewCommitInfo_def
        time_Round_def time_UTC_def Second_def path_Base_def chunkSize_def)
  have files: "os_Open ?e ''a.txt'' =
     Inr \<lparr>contents = [1, 2, 3], Stat = Inr \<lparr>Size = 3, ModTime = \<lparr>abs_ns = 5, loc = Local\<rparr>\<rparr>\<rparr>"
    "os_Open (with_ModTime (\<lambda>p. \<lparr>abs_ns = 7000000000, loc = UTC\<rparr>) ?e) ''a.txt'' =
     Inr \<lparr>contents = [1, 2, 3],
          Stat = Inr \<lparr>Size = 3, ModTime = \<lparr>abs_ns = 7000000000, loc = UTC\<rparr>\<rparr>\<rparr>"
    by (simp_all add: env_of_def with_ModTime_def)
  from client_modified_from_clock [of "\<lambda>p. \<lparr>abs_ns = 7000000000, loc = UTC\<rparr>" ?e "[]" "''a.txt''"]
  have "put_task (with_ModTime (\<lambda>p. \<lparr>abs_ns = 7000000000, loc = UTC\<rparr>) ?e) [] ''a.txt'' =
      (None, [UploadCall ?ci [1, 2, 3]])"
    and "ClientModified ?ci = time_Round (time_UTC (time_Now ?e)) Second"
    unfolding run by simp_all
  with files show ?thesis by simp
qed

subsection \<open>The command: operands and the return value\<close>

text \<open>
  C9: with an empty list of source paths, \<open>put\<close> returns the error
  "missing operands to `put`", whatever the flag lookup would give; it starts no task,
  so no call to the remote side is made.
\<close>

theorem put_no_operands:
  "put flag [] world = (Some (Error ''missing operands to `put`''), [])"
  by (simp add: put_def)

text \<open>What the function \<open>put\<close> gives for a non-empty list and a destination.\<close>

lemma put_tasks:
  "args \<noteq> [] \<Longrightarrow>
     put (Inr destination) args world =
       (None, map (\<lambda>i. put_task (world i) destination (args ! i)) [0..<length args])"
proof -
  assume "args \<noteq> []"
  moreover have "map (\<lambda>(i, arg). put_task (world i) destination arg) (enumerate 0 args) =
      map (\<lambda>i. put_task (world i) destination (args ! i)) [0..<length args]"
    by (rule nth_equalityI) (simp_all add: nth_enumerate_eq)
  ultimately show ?thesis
    by (simp add: put_def)
qed

subsection \<open>The command: the goroutines and the wait group\<close>

lemma sum_list_map_update_nat:
  fixes f :: "'a \<Rightarrow> nat"
  shows "i < length xs \<Longrightarrow> sum_list (map f (xs[i := y])) + f (xs ! i) = sum_list (map f xs) + f y"
  by (induction xs arbitrary: i) (auto simp: nth_Cons split: nat.splits)

lemma running_update_same:
  "i < length gs \<Longrightarrow> running g = running (gs ! i) \<Longrightarrow>
     sum_list (map running (gs[i := g])) = sum_list (map running gs)"
  using sum_list_map_update_nat [of i gs running g] by simp

lemma running_update_exit:
  "i < length gs \<Longrightarrow> gs ! i = BodyDone res \<Longrightarrow>
     sum_list (map running gs) = Suc (sum_list (map running (gs[i := Exited res'])))"
  using sum_list_map_update_nat [of i gs running "Exited res'"] by simp

lemma drop_eq_ConsD:
  assumes "drop k xs = x # rest"
  shows "k < length xs \<and> x = xs ! k \<and> rest = drop (Suc k) xs"
proof -
  have k: "k < length xs"
    using assms by (cases "k < length xs") simp_all
  from Cons_nth_drop_Suc [OF k] assms show ?thesis
    using k by simp
qed

lemma put_inv_spawn: "put_inv world destination args (put_spawn args)"
  by (simp add: put_inv_def put_spawn_def)

lemma put_inv_step:
  assumes "put_step world destination s s'" and "put_inv world destination args s"
  shows "put_inv world destination args s'"
  using assms
proof (cases rule: put_step.cases)
  case (main_add arg rest)
  with assms(2) show ?thesis
    by (auto simp: put_inv_def Let_def dest: drop_eq_ConsD [OF sym])
next
  case (main_go arg rest)
  with assms(2) show ?thesis
    by (auto simp: put_inv_def Let_def nth_append less_Suc_eq)
next
  case main_range_end
  with assms(2) show ?thesis
    by (auto simp: put_inv_def Let_def)
next
  case main_wait
  with assms(2) show ?thesis
    by (auto simp: put_inv_def Let_def)
next
  case (task_body i arg)
  with assms(2) show ?thesis
    by (auto simp: put_inv_def Let_def nth_list_update running_update_same split: main_pc.splits)
next
  case (task_done i res)
  from running_update_exit [OF task_done(2,3), of res]
  have n: "sum_list (map running (goroutines s)) =
      Suc (sum_list (map running ((goroutines s)[i := Exited res])))" .
  from task_done assms(2) show ?thesis
    by (auto simp: put_inv_def Let_def nth_list_update n split: main_pc.splits)
qed

lemma put_inv_reachable:
  "rtranclp (put_step world destination) (put_spawn args) s \<Longrightarrow>
     put_inv world destination args s"
  by (induction rule: rtranclp_induct) (auto intro: put_inv_spawn put_inv_step)

lemma running_zero_exited:
  "sum_list (map running gs) = 0 \<Longrightarrow> i < length gs \<Longrightarrow> \<exists>res. gs ! i = Exited res"
proof -
  assume "sum_list (map running gs) = 0" and "i < length gs"
  then have "running (gs ! i) = 0"
    by (auto simp: sum_list_eq_0_iff)
  then show ?thesis
    by (cases "gs ! i") simp_all
qed

lemma running_pos_unfinished:
  "sum_list (map running gs) \<noteq> 0 \<Longrightarrow>
     \<exists>i < length gs. (\<exists>arg. gs ! i = Started arg) \<or> (\<exists>res. gs ! i = BodyDone res)"
proof -
  assume "sum_list (map running gs) \<noteq> 0"
  then obtain g where g: "g \<in> set gs" "running g \<noteq> 0"
    by (auto simp: sum_list_eq_0_iff)
  then obtain i where "i < length gs" "gs ! i = g"
    by (auto simp: in_set_conv_nth)
  with g(2) show ?thesis
    by (cases g) auto
qed

lemma put_inv_returned:
  assumes "put_inv world destination args s" and "pc s = Returned r"
  shows "r = None \<and>
     goroutines s = map (\<lambda>i. Exited (put_task (world i) destination (args ! i))) [0..<length args]"
proof -
  from assms have r: "r = None" and len: "length (goroutines s) = length args"
    and zero: "sum_list (map running (goroutines s)) = 0"
    and of: "\<forall>i < length args. goroutine_of world destination args i (goroutines s ! i)"
    by (simp_all add: put_inv_def Let_def)
  have "goroutines s ! i = Exited (put_task (world i) destination (args ! i))"
    if "i < length args" for i
  proof -
    from running_zero_exited [OF zero, of i] that len obtain res where "goroutines s ! i = Exited res"
      by auto
    with of that show ?thesis by auto
  qed
  with len have "goroutines s =
      map (\<lambda>i. Exited (put_task (world i) destination (args ! i))) [0..<length args]"
    by (intro nth_equalityI) simp_all
  with r show ?thesis by simp
qed

lemma put_inv_progress:
  assumes "put_inv world destination args s" and "\<forall>r. pc s \<noteq> Returned r"
  shows "\<exists>s'. put_step world destination s s'"
proof (cases "pc s")
  case (Loop rest)
  then show ?thesis
    by (cases rest) (auto intro: put_step.main_range_end put_step.main_add)
next
  case (Go arg rest)
  then show ?thesis by (auto intro: put_step.main_go)
next
  case Wait
  show ?thesis
  proof (cases "waitGroup s = 0")
    case True
    with Wait show ?thesis by (auto intro: put_step.main_wait)
  next
    case False
    with Wait assms(1) have "sum_list (map running (goroutines s)) \<noteq> 0"
      by (simp add: put_inv_def Let_def)
    from running_pos_unfinished [OF this] show ?thesis
      by (auto intro: put_step.task_body put_step.task_done)
  qed
next
  case (Returned r)
  with assms(2) show ?thesis by simp
qed

lemma put_step_weight:
  assumes "put_step world destination s s'"
  shows "put_weight s' < put_weight s"
  using assms
proof (cases rule: put_step.cases)
  case (task_body i arg)
  with sum_list_map_update_nat [of i "goroutines s" goroutine_weight
      "BodyDone (put_task (world i) destination arg)"]
  show ?thesis by (simp add: put_weight_def)
next
  case (task_done i res)
  with sum_list_map_update_nat [of i "goroutines s" goroutine_weight "Exited res"]
  show ?thesis by (simp add: put_weight_def)
qed (simp_all add: put_weight_def)

text \<open>
  C3: with a non-empty list of arguments and a successful lookup of the destination
  flag, in every state that the goroutines of \<open>put\<close> can reach, in any interleaving:
  if \<open>put\<close> has returned, it has returned nil, a goroutine was started for every
  argument and every one of them has run its task to the end and exited, whatever the
  tasks returned (this is the result of the function \<open>put\<close>); if \<open>put\<close> has not
  returned, some goroutine can take a step, so \<open>put\<close> is never blocked for ever at
  \<open>Wait\<close>; and every step lowers \<open>put_weight\<close>, so \<open>put\<close> does return.
\<close>

theorem put_waits_and_returns_nil:
  assumes "args \<noteq> []"
    and "rtranclp (put_step world destination) (put_spawn args) s"
  shows "(\<forall>r. pc s = Returned r \<longrightarrow>
            r = None \<and> r = fst (put (Inr destination) args world) \<and>
            goroutines s = map Exited (snd (put (Inr destination) args world))) \<and>
         ((\<forall>r. pc s \<noteq> Returned r) \<longrightarrow> (\<exists>s'. put_step world destination s s')) \<and>
         (\<forall>s'. put_step world destination s s' \<longrightarrow> put_weight s' < put_weight s)"
proof -
  have inv: "put_inv world destination args s"
    by (rule put_inv_reachable [OF assms(2)])
  have "r = None \<and> r = fst (put (Inr destination) args world) \<and>
      goroutines s = map Exited (snd (put (Inr destination) args world))"
    if "pc s = Returned r" for r
    using put_inv_returned [OF inv that] by (simp add: put_tasks [OF assms(1)])
  moreover have "\<exists>s'. put_step world destination s s'" if "\<forall>r. pc s \<noteq> Returned r"
    by (rule put_inv_progress [OF inv that])
  moreover have "put_weight s' < put_weight s" if "put_step world destination s s'" for s'
    by (rule put_step_weight [OF that])
  ultimately show ?thesis by blast
qed

text \<open>
  Two files, none of which can be opened: the first task fails before the second is
  started, both exit, and \<open>put\<close> returns nil.
\<close>

theorem put_waits_and_returns_nil_witness:
  "[''a.txt'', ''b.txt''] \<noteq> [] \<and>
   rtranclp (put_step (\<lambda>i. env_no_file) [])
     (put_spawn [''a.txt'', ''b.txt''])
     \<lparr>pc = Returned None, waitGroup = 0,
      goroutines = [Exited (Some (Error ''open''), []), Exited (Some (Error ''open''), [])]\<rparr> \<and>
   fst (put (Inr []) [''a.txt'', ''b.txt''] (\<lambda>i. env_no_file)) = None \<and>
   map Exited (snd (put (Inr []) [''a.txt'', ''b.txt''] (\<lambda>i. env_no_file))) =
     [Exited (Some (Error ''open''), []), Exited (Some (Error ''open''), [])] \<and>
   rtranclp (put_step (\<lambda>i. env_no_file) [])
     (put_spawn [''a.txt'', ''b.txt''])
     \<lparr>pc = Wait, waitGroup = 1,
      goroutines = [Exited (Some (Error ''open''), []), Started ''b.txt'']\<rparr> \<and>
   put_step (\<lambda>i. env_no_file) []
     \<lparr>pc = Wait, waitGroup = 1,
      goroutines = [Exited (Some (Error ''open''), []), Started ''b.txt'']\<rparr>
     \<lparr>pc = Wait, waitGroup = 1,
      goroutines = [Exited (Some (Error ''open''), []), BodyDone (Some (Error ''open''), [])]\<rparr> \<and>
   put_weight \<lparr>pc = Wait, waitGroup = 1,
      goroutines = [Exited (Some (Error ''open''), []), BodyDone (Some (Error ''open''), [])]\<rparr>
     < put_weight \<lparr>pc = Wait, waitGroup = 1,
      goroutines = [Exited (Some (Error ''open''), []), Started ''b.txt'']\<rparr>"
proof -
  let ?w = "\<lambda>i :: nat. env_no_file"
  let ?res = "(Some (Error ''open''), []) :: error option \<times> call list"
  let ?step = "put_step ?w []"
  let ?s0 = "put_spawn [''a.txt'', ''b.txt'']"
  let ?s1 = "\<lparr>pc = Go ''a.txt'' [''b.txt''], waitGroup = 1, goroutines = []\<rparr>"
  let ?s2 = "\<lparr>pc = Loop [''b.txt''], waitGroup = 1, goroutines = [Started ''a.txt'']\<rparr>"
  let ?s3 = "\<lparr>pc = Loop [''b.txt''], waitGroup = 1, goroutines = [BodyDone ?res]\<rparr>"
  let ?s4 = "\<lparr>pc = Go ''b.txt'' [], waitGroup = 2, goroutines = [BodyDone ?res]\<rparr>"
  let ?s5 = "\<lparr>pc = Loop [], waitGroup = 2, goroutines = [BodyDone ?res, Started ''b.txt'']\<rparr>"
  let ?s6 = "\<lparr>pc = Loop [], waitGroup = 1, goroutines = [Exited ?res, Started ''b.txt'']\<rparr>"
  let ?s7 = "\<lparr>pc = Wait, waitGroup = 1, goroutines = [Exited ?res, Started ''b.txt'']\<rparr>"
  let ?s8 = "\<lparr>pc = Wait, waitGroup = 1, goroutines = [Exited ?res, BodyDone ?res]\<rparr>"
  let ?s9 = "\<lparr>pc = Wait, waitGroup = 0, goroutines = [Exited ?res, Exited ?res]\<rparr>"
  let ?s10 = "\<lparr>pc = Returned None, waitGroup = 0, goroutines = [Exited ?res, Exited ?res]\<rparr>"
  have task: "put_task env_no_file [] arg = ?res" for arg
    by (simp add: put_task_def env_no_file_def env_of_def)
  have 1: "?step ?s0 ?s1"
    using put_step.main_add [of ?s0 "''a.txt''" "[''b.txt'']" ?w "[]"] by (simp add: put_spawn_def)
  have 2: "?step ?s1 ?s2"
    using put_step.main_go [of ?s1 "''a.txt''" "[''b.txt'']" ?w "[]"] by simp
  have 3: "?step ?s2 ?s3"
    using put_step.task_body [of 0 ?s2 "''a.txt''" ?w "[]"] by (simp add: task)
  have 4: "?step ?s3 ?s4"
    using put_step.main_add [of ?s3 "''b.txt''" "[]" ?w "[]"] by simp
  have 5: "?step ?s4 ?s5"
    using put_step.main_go [of ?s4 "''b.txt''" "[]" ?w "[]"] by simp
  have 6: "?step ?s5 ?s6"
    using put_step.task_done [of 0 ?s5 ?res ?w "[]"] by simp
  have 7: "?step ?s6 ?s7"
    using put_step.main_range_end [of ?s6 ?w "[]"] by simp
  have 8: "?step ?s7 ?s8"
    using put_step.task_body [of 1 ?s7 "''b.txt''" ?w "[]"] by (simp add: task)
  have 9: "?step ?s8 ?s9"
    using put_step.task_done [of 1 ?s8 ?res ?w "[]"] by simp
  have 10: "?step ?s9 ?s10"
    using put_step.main_wait [of ?s9 ?w "[]"] by simp
  have waiting: "rtranclp ?step ?s0 ?s7"
    using 1 2 3 4 5 6 7 by (meson rtranclp.rtrancl_into_rtrancl rtranclp.rtrancl_refl)
  then have returned: "rtranclp ?step ?s0 ?s10"
    using 8 9 10 by (meson rtranclp.rtrancl_into_rtrancl)
  have ne: "[''a.txt'', ''b.txt''] \<noteq> []"
    by simp
  from put_waits_and_returns_nil [OF ne returned]
  have "fst (put (Inr []) [''a.txt'', ''b.txt''] ?w) = None"
    and "map Exited (snd (put (Inr []) [''a.txt'', ''b.txt''] ?w)) = [Exited ?res, Exited ?res]"
    by simp_all
  moreover from put_waits_and_returns_nil [OF ne waiting] 8
  have "put_weight ?s8 < put_weight ?s7"
    by blast
  ultimately show ?thesis
    using ne returned waiting 8 by blast
qed

end
